theory Spec2Isabelle
  imports Complex_Main
begin

section \<open>MixEn content script: data model\<close>

text \<open>
  A JavaScript string is a sequence of UTF-16 code units; \<open>s[i]\<close>, \<open>s.length\<close> and
  \<open>s.slice\<close> all count code units. The CJK range \<open>0x4E00..0x9FFF\<close> lies in the basic
  plane, so \<open>ch.codePointAt(0)\<close> of a one-unit string is the unit itself.
  Array indices, lengths and loop counters are natural numbers; the numbers that take
  part in floating-point arithmetic are treated in the section on JavaScript numbers.
\<close>

type_synonym jschar = nat
type_synonym jsstring = "jschar list"

definition js :: "string \<Rightarrow> jsstring" where
  "js s = map of_char s"

text \<open>
  A dictionary value \<open>{en:[...], py, tag, pos?}\<close>. The field \<open>en\<close> may be missing
  (\<open>entry.en || []\<close> in the source), as may \<open>pos\<close>.
\<close>

record entry =
  en :: "jsstring list option"
  py :: jsstring
  tag :: jsstring
  pos :: "jsstring option"

type_synonym dict = "jsstring \<rightharpoonup> entry"

text \<open>An element of the array built by \<open>segmentChinese\<close>: a plain string or \<open>{w, entry}\<close>.\<close>

datatype segment = Literal jsstring | Token jsstring entry

fun segText :: "segment \<Rightarrow> jsstring" where
  "segText (Literal s) = s"
| "segText (Token w e) = w"

fun isToken :: "segment \<Rightarrow> bool" where
  "isToken (Literal s) = False"
| "isToken (Token w e) = True"

definition isCJK :: "jschar \<Rightarrow> bool" where
  "isCJK code \<longleftrightarrow> code \<ge> 0x4E00 \<and> code \<le> 0x9FFF"

section \<open>chooseSense\<close>

text \<open>
  The loop \<open>for(const s of list){ if(s && s.length < best.length) best = s; }\<close>:
  an empty string is falsy and is skipped.
\<close>

fun chooseLoop :: "jsstring list \<Rightarrow> jsstring \<Rightarrow> jsstring" where
  "chooseLoop [] best = best"
| "chooseLoop (s # ss) best =
     chooseLoop ss (if s \<noteq> [] \<and> length s < length best then s else best)"

definition chooseSense :: "entry \<Rightarrow> jsstring" where
  "chooseSense entry =
     (case (case en entry of None \<Rightarrow> [] | Some l \<Rightarrow> l) of
        [] \<Rightarrow> []
      | first # rest \<Rightarrow> chooseLoop (first # rest) first)"

section \<open>segmentChinese\<close>

text \<open>\<open>text.slice(a, b)\<close> for \<open>0 \<le> a \<le> b\<close>: the units from \<open>a\<close> up to \<open>b\<close>, cut at the end.\<close>

definition slice :: "jsstring \<Rightarrow> nat \<Rightarrow> nat \<Rightarrow> jsstring" where
  "slice str a b = take (b - a) (drop a str)"

text \<open>
  The inner loop \<open>for(let l = maxL; l >= 1; l--)\<close>: the first length whose slice is a key
  of \<open>DICT\<close> is taken.
\<close>

fun findMatch :: "dict \<Rightarrow> jsstring \<Rightarrow> nat \<Rightarrow> nat \<Rightarrow> (jsstring \<times> entry) option" where
  "findMatch DICT str i 0 = None"
| "findMatch DICT str i (Suc l) =
     (case DICT (slice str i (i + Suc l)) of
        Some e \<Rightarrow> Some (slice str i (i + Suc l), e)
      | None \<Rightarrow> findMatch DICT str i l)"

lemma findMatch_Some:
  "findMatch DICT str i n = Some (w, e) \<Longrightarrow>
     \<exists>l. 1 \<le> l \<and> l \<le> n \<and> w = slice str i (i + l) \<and> DICT w = Some e
        \<and> (\<forall>l'. l < l' \<and> l' \<le> n \<longrightarrow> DICT (slice str i (i + l')) = None)"
proof (induction n)
  case 0
  then show ?case by simp
next
  case (Suc n)
  show ?case
  proof (cases "DICT (slice str i (i + Suc n))")
    case None
    with Suc.prems have "findMatch DICT str i n = Some (w, e)" by simp
    from Suc.IH [OF this] obtain l where l: "1 \<le> l" "l \<le> n" "w = slice str i (i + l)"
      "DICT w = Some e" "\<forall>l'. l < l' \<and> l' \<le> n \<longrightarrow> DICT (slice str i (i + l')) = None"
      by blast
    have "\<forall>l'. l < l' \<and> l' \<le> Suc n \<longrightarrow> DICT (slice str i (i + l')) = None"
    proof (intro allI impI)
      fix l' assume "l < l' \<and> l' \<le> Suc n"
      then consider "l' \<le> n" "l < l'" | "l' = Suc n" by linarith
      then show "DICT (slice str i (i + l')) = None"
        using l(5) None by cases auto
    qed
    with l show ?thesis by (intro exI [of _ l]) simp
  next
    case (Some e')
    with Suc.prems have "w = slice str i (i + Suc n)" "e' = e" by simp_all
    with Some show ?thesis by (intro exI [of _ "Suc n"]) auto
  qed
qed

lemma findMatch_None:
  "findMatch DICT str i n = None \<Longrightarrow> 1 \<le> l \<Longrightarrow> l \<le> n \<Longrightarrow> DICT (slice str i (i + l)) = None"
proof (induction n)
  case 0
  then show ?case by simp
next
  case (Suc n)
  then show ?case
    by (cases "l = Suc n") (auto split: option.splits)
qed

lemma length_slice: "length (slice str i (i + l)) = min l (length str - i)"
  by (simp add: slice_def)

lemma findMatch_length:
  assumes "findMatch DICT str i n = Some (w, e)" and "i < length str"
  shows "0 < length w"
proof -
  from findMatch_Some [OF assms(1)] obtain l where "1 \<le> l" "w = slice str i (i + l)"
    by blast
  with assms(2) show ?thesis by (simp add: length_slice)
qed

text \<open>
  The outer loop \<open>while(i < N)\<close> with the output array \<open>out\<close>. A match advances by
  \<open>matched.w.length\<close>, everything else by one.
\<close>

function segLoop :: "dict \<Rightarrow> nat \<Rightarrow> jsstring \<Rightarrow> nat \<Rightarrow> segment list \<Rightarrow> segment list" where
  "segLoop DICT maxWordLen str i out =
     (if i < length str then
        (if isCJK (str ! i) then
           (case findMatch DICT str i (min maxWordLen (length str - i)) of
              Some (w, e) \<Rightarrow> segLoop DICT maxWordLen str (i + length w) (out @ [Token w e])
            | None \<Rightarrow> segLoop DICT maxWordLen str (i + 1) (out @ [Literal [str ! i]]))
         else segLoop DICT maxWordLen str (i + 1) (out @ [Literal [str ! i]]))
      else out)"
  by pat_completeness auto
termination
proof (relation "measure (\<lambda>(DICT, maxWordLen, str, i, out). length str - i)")
  show "wf (measure (\<lambda>(DICT, maxWordLen, str, i, out). length str - i))" by simp
next
  fix DICT :: dict and maxWordLen :: nat and str :: jsstring and i :: nat
    and out :: "segment list" and x2 :: "jsstring \<times> entry" and x y
  assume "i < length str"
    and "findMatch DICT str i (min maxWordLen (length str - i)) = Some x2"
    and "(x, y) = x2"
  then have "0 < length x" using findMatch_length [of DICT str i _ x y] by simp
  with \<open>i < length str\<close> have "length str - (i + length x) < length str - i" by linarith
  then show "((DICT, maxWordLen, str, i + length x, out @ [Token x y]), DICT, maxWordLen, str, i, out)
          \<in> measure (\<lambda>(DICT, maxWordLen, str, i, out). length str - i)"
    by simp
qed auto

declare segLoop.simps [simp del]

definition segmentChinese :: "dict \<Rightarrow> nat \<Rightarrow> jsstring \<Rightarrow> segment list" where
  "segmentChinese DICT maxWordLen str = segLoop DICT maxWordLen str 0 []"

section \<open>Properties of the segmenter\<close>

lemma segLoop_concat:
  "i \<le> length str \<Longrightarrow>
     concat (map segText (segLoop DICT m str i out)) = concat (map segText out) @ drop i str"
proof (induction DICT m str i out rule: segLoop.induct)
  case (1 DICT m str i out)
  show ?case
  proof (cases "i < length str")
    case False
    have "segLoop DICT m str i out = out"
      using False by (subst segLoop.simps) simp
    with False "1.prems" show ?thesis by simp
  next
    case inb: True
    have step: "[str ! i] @ drop (i + 1) str = drop i str"
      using inb by (simp add: Cons_nth_drop_Suc)
    show ?thesis
    proof (cases "isCJK (str ! i)")
      case False
      with inb "1.IH"(3) have
        "concat (map segText (segLoop DICT m str (i + 1) (out @ [Literal [str ! i]])))
           = concat (map segText (out @ [Literal [str ! i]])) @ drop (i + 1) str"
        by simp
      with inb False step show ?thesis
        by (simp add: segLoop.simps [of DICT m str i out])
    next
      case cjk: True
      show ?thesis
      proof (cases "findMatch DICT str i (min m (length str - i))")
        case None
        with inb cjk "1.IH"(1) have
          "concat (map segText (segLoop DICT m str (i + 1) (out @ [Literal [str ! i]])))
             = concat (map segText (out @ [Literal [str ! i]])) @ drop (i + 1) str"
          by simp
        with inb cjk None step show ?thesis
          by (simp add: segLoop.simps [of DICT m str i out])
      next
        case (Some p)
        obtain w e where p: "p = (w, e)" by (cases p)
        have fm: "findMatch DICT str i (min m (length str - i)) = Some (w, e)"
          using Some p by simp
        from findMatch_Some [OF fm] obtain l where
          l: "1 \<le> l" "l \<le> min m (length str - i)" "w = slice str i (i + l)"
          by blast
        then have lw: "length w = l" by (simp add: length_slice)
        have le: "i + length w \<le> length str" using l(2) lw inb by linarith
        have app: "w @ drop (i + length w) str = drop i str"
          using l(3) lw append_take_drop_id [of l "drop i str"]
          by (simp add: slice_def add.commute)
        have unf: "segLoop DICT m str i out
                     = segLoop DICT m str (i + length w) (out @ [Token w e])"
          using inb cjk fm by (subst segLoop.simps) simp
        have "concat (map segText (segLoop DICT m str (i + length w) (out @ [Token w e])))
             = concat (map segText (out @ [Token w e])) @ drop (i + length w) str"
          by (rule "1.IH"(2) [OF inb cjk fm refl le])
        with unf app show ?thesis by simp
      qed
    qed
  qed
qed

text \<open>
  C9. Joining the pieces produced by \<open>segmentChinese\<close> in order (a token's matched word,
  a literal's character) gives back the input text, whatever the dictionary holds.
\<close>

theorem segmentChinese_lossless:
  "concat (map segText (segmentChinese DICT maxWordLen str)) = str"
  unfolding segmentChinese_def using segLoop_concat [of 0 str DICT maxWordLen "[]"] by simp

text \<open>The position in the input at which the \<open>k\<close>-th segment starts.\<close>

definition segStart :: "segment list \<Rightarrow> nat \<Rightarrow> nat" where
  "segStart segs k = length (concat (map segText (take k segs)))"

text \<open>
  The specification's reading of the segmenter, to compare with \<open>segLoop\<close>: the lengths
  between 1 and \<open>min(MAX_WORD_LEN, remaining)\<close> whose substring at position \<open>i\<close> is a
  headword, and the segment to emit at \<open>i\<close> (the longest such headword at a CJK character,
  the single character otherwise).
\<close>

definition matchLengths :: "dict \<Rightarrow> nat \<Rightarrow> jsstring \<Rightarrow> nat \<Rightarrow> nat set" where
  "matchLengths DICT maxWordLen str i =
     {l. 1 \<le> l \<and> l \<le> min maxWordLen (length str - i) \<and> DICT (slice str i (i + l)) \<noteq> None}"

definition specSegmentAt :: "dict \<Rightarrow> nat \<Rightarrow> jsstring \<Rightarrow> nat \<Rightarrow> segment" where
  "specSegmentAt DICT maxWordLen str i =
     (if isCJK (str ! i) \<and> matchLengths DICT maxWordLen str i \<noteq> {}
      then Token (slice str i (i + Max (matchLengths DICT maxWordLen str i)))
                 (the (DICT (slice str i (i + Max (matchLengths DICT maxWordLen str i)))))
      else Literal [str ! i])"

lemma finite_matchLengths: "finite (matchLengths DICT m str i)"
proof -
  have "matchLengths DICT m str i \<subseteq> {..min m (length str - i)}"
    by (auto simp: matchLengths_def)
  then show ?thesis by (rule finite_subset) simp
qed

lemma findMatch_Some_Max:
  assumes "findMatch DICT str i (min m (length str - i)) = Some (w, e)"
  shows "matchLengths DICT m str i \<noteq> {} \<and> w = slice str i (i + Max (matchLengths DICT m str i))
         \<and> DICT w = Some e \<and> length w = Max (matchLengths DICT m str i)"
proof -
  from findMatch_Some [OF assms] obtain l where
    l: "1 \<le> l" "l \<le> min m (length str - i)" "w = slice str i (i + l)" "DICT w = Some e"
       "\<forall>l'. l < l' \<and> l' \<le> min m (length str - i) \<longrightarrow> DICT (slice str i (i + l')) = None"
    by blast
  have mem: "l \<in> matchLengths DICT m str i"
    using l by (simp add: matchLengths_def)
  have ub: "\<And>l'. l' \<in> matchLengths DICT m str i \<Longrightarrow> l' \<le> l"
  proof (rule ccontr)
    fix l' assume a: "l' \<in> matchLengths DICT m str i" and "\<not> l' \<le> l"
    then have "l < l' \<and> l' \<le> min m (length str - i)" by (simp add: matchLengths_def)
    with l(5) have "DICT (slice str i (i + l')) = None" by blast
    with a show False by (simp add: matchLengths_def)
  qed
  have mx: "Max (matchLengths DICT m str i) = l"
    using finite_matchLengths mem ub by (intro Max_eqI) auto
  have "length w = l" using l(2,3) by (simp add: length_slice)
  with mem mx l show ?thesis by auto
qed

lemma findMatch_None_empty:
  assumes "findMatch DICT str i (min m (length str - i)) = None"
  shows "matchLengths DICT m str i = {}"
  using findMatch_None [OF assms] by (auto simp: matchLengths_def)

lemma segLoop_prefix:
  "segLoop DICT m str i (pre @ out) = pre @ segLoop DICT m str i out"
proof (induction DICT m str i out arbitrary: pre rule: segLoop.induct)
  case (1 DICT m str i out)
  show ?case
  proof (cases "i < length str")
    case False
    then show ?thesis
      by (simp add: segLoop.simps [of DICT m str i])
  next
    case inb: True
    show ?thesis
    proof (cases "isCJK (str ! i)")
      case False
      have "segLoop DICT m str i (pre @ out)
              = segLoop DICT m str (i + 1) (pre @ out @ [Literal [str ! i]])"
        using inb False by (subst segLoop.simps) simp
      also have "\<dots> = pre @ segLoop DICT m str (i + 1) (out @ [Literal [str ! i]])"
        by (rule "1.IH"(3) [OF inb False])
      also have "segLoop DICT m str (i + 1) (out @ [Literal [str ! i]]) = segLoop DICT m str i out"
        using inb False by (subst (2) segLoop.simps) simp
      finally show ?thesis .
    next
      case cjk: True
      show ?thesis
      proof (cases "findMatch DICT str i (min m (length str - i))")
        case None
        have "segLoop DICT m str i (pre @ out)
                = segLoop DICT m str (i + 1) (pre @ out @ [Literal [str ! i]])"
          using inb cjk None by (subst segLoop.simps) simp
        also have "\<dots> = pre @ segLoop DICT m str (i + 1) (out @ [Literal [str ! i]])"
          by (rule "1.IH"(1) [OF inb cjk None])
        also have "segLoop DICT m str (i + 1) (out @ [Literal [str ! i]]) = segLoop DICT m str i out"
          using inb cjk None by (subst (2) segLoop.simps) simp
        finally show ?thesis .
      next
        case (Some p)
        obtain w e where fm: "findMatch DICT str i (min m (length str - i)) = Some (w, e)"
          using Some by (cases p) simp
        have "segLoop DICT m str i (pre @ out)
                = segLoop DICT m str (i + length w) (pre @ out @ [Token w e])"
          using inb cjk fm by (subst segLoop.simps) simp
        also have "\<dots> = pre @ segLoop DICT m str (i + length w) (out @ [Token w e])"
          by (rule "1.IH"(2) [OF inb cjk fm refl])
        also have "segLoop DICT m str (i + length w) (out @ [Token w e]) = segLoop DICT m str i out"
          using inb cjk fm by (subst (2) segLoop.simps) simp
        finally show ?thesis .
      qed
    qed
  qed
qed

lemma segLoop_step:
  assumes "i < length str"
  shows "segLoop DICT m str i [] =
           specSegmentAt DICT m str i # segLoop DICT m str (i + length (segText (specSegmentAt DICT m str i))) []"
proof (cases "isCJK (str ! i)")
  case False
  have "segLoop DICT m str i [] = segLoop DICT m str (i + 1) ([Literal [str ! i]] @ [])"
    using assms False by (subst segLoop.simps) simp
  also have "\<dots> = [Literal [str ! i]] @ segLoop DICT m str (i + 1) []"
    by (rule segLoop_prefix)
  finally show ?thesis using False by (simp add: specSegmentAt_def)
next
  case cjk: True
  show ?thesis
  proof (cases "findMatch DICT str i (min m (length str - i))")
    case None
    have "segLoop DICT m str i [] = segLoop DICT m str (i + 1) ([Literal [str ! i]] @ [])"
      using assms cjk None by (subst segLoop.simps) simp
    also have "\<dots> = [Literal [str ! i]] @ segLoop DICT m str (i + 1) []"
      by (rule segLoop_prefix)
    finally show ?thesis using findMatch_None_empty [OF None] by (simp add: specSegmentAt_def)
  next
    case (Some p)
    obtain w e where fm: "findMatch DICT str i (min m (length str - i)) = Some (w, e)"
      using Some by (cases p) simp
    note mx = findMatch_Some_Max [OF fm]
    have "segLoop DICT m str i [] = segLoop DICT m str (i + length w) ([Token w e] @ [])"
      using assms cjk fm by (subst segLoop.simps) simp
    also have "\<dots> = [Token w e] @ segLoop DICT m str (i + length w) []"
      by (rule segLoop_prefix)
    finally have "segLoop DICT m str i [] = Token w e # segLoop DICT m str (i + length w) []"
      by simp
    moreover have "specSegmentAt DICT m str i = Token w e"
      using cjk mx by (auto simp: specSegmentAt_def)
    ultimately show ?thesis by simp
  qed
qed

lemma segLoop_end: "\<not> i < length str \<Longrightarrow> segLoop DICT m str i [] = []"
  by (subst segLoop.simps) simp

lemma segLoop_nth:
  "k < length (segLoop DICT m str i []) \<Longrightarrow>
     i + segStart (segLoop DICT m str i []) k < length str \<and>
     segLoop DICT m str i [] ! k = specSegmentAt DICT m str (i + segStart (segLoop DICT m str i []) k)"
proof (induction k arbitrary: i)
  case 0
  then have inb: "i < length str" using segLoop_end [of i str DICT m] by (cases "i < length str") auto
  show ?case using inb segLoop_step [OF inb, of DICT m] by (simp add: segStart_def)
next
  case (Suc k)
  then have inb: "i < length str" using segLoop_end [of i str DICT m] by (cases "i < length str") auto
  let ?s = "specSegmentAt DICT m str i"
  let ?j = "i + length (segText ?s)"
  have unf: "segLoop DICT m str i [] = ?s # segLoop DICT m str ?j []"
    by (rule segLoop_step [OF inb])
  with Suc.prems have "k < length (segLoop DICT m str ?j [])" by simp
  from Suc.IH [OF this] have
    ih: "?j + segStart (segLoop DICT m str ?j []) k < length str"
        "segLoop DICT m str ?j [] ! k = specSegmentAt DICT m str (?j + segStart (segLoop DICT m str ?j []) k)"
    by simp_all
  have st: "segStart (segLoop DICT m str i []) (Suc k)
              = length (segText ?s) + segStart (segLoop DICT m str ?j []) k"
    by (subst unf) (simp add: segStart_def)
  have nth: "segLoop DICT m str i [] ! Suc k = segLoop DICT m str ?j [] ! k"
    by (subst unf) simp
  show ?case using ih st nth by (simp add: add.assoc)
qed

lemma segLoop_eval:
  "segLoop DICT m str i out =
     (if i < length str then
        (if isCJK (str ! i) \<and> findMatch DICT str i (min m (length str - i)) \<noteq> None
         then segLoop DICT m str
                (i + length (fst (the (findMatch DICT str i (min m (length str - i))))))
                (out @ [Token (fst (the (findMatch DICT str i (min m (length str - i)))))
                              (snd (the (findMatch DICT str i (min m (length str - i)))))])
         else segLoop DICT m str (i + 1) (out @ [Literal [str ! i]]))
      else out)"
  by (subst segLoop.simps) (auto split: option.splits)

text \<open>
  C4. The segments cover the whole input from left to right: joined they are the input, the
  first starts at position 0, each next one where the one before it ends, and the last
  ends at the end of the input. The \<open>k\<close>-th segment is the one the specification
  prescribes at its start position: at a CJK character with a dictionary hit among the
  lengths \<open>1..min(MAX_WORD_LEN, remaining)\<close>, the token of the greatest such length with
  its dictionary entry; otherwise the one-character literal. In particular no longer
  substring within the limit is a headword when a token is emitted.
\<close>

theorem segmentChinese_longest_match:
  "concat (map segText (segmentChinese DICT maxWordLen str)) = str \<and>
   segStart (segmentChinese DICT maxWordLen str) 0 = 0 \<and>
   segStart (segmentChinese DICT maxWordLen str) (length (segmentChinese DICT maxWordLen str))
     = length str \<and>
   (\<forall>k<length (segmentChinese DICT maxWordLen str).
      segStart (segmentChinese DICT maxWordLen str) k < length str \<and>
      segmentChinese DICT maxWordLen str ! k
        = specSegmentAt DICT maxWordLen str (segStart (segmentChinese DICT maxWordLen str) k) \<and>
      segStart (segmentChinese DICT maxWordLen str) (Suc k)
        = segStart (segmentChinese DICT maxWordLen str) k
          + length (segText (segmentChinese DICT maxWordLen str ! k)) \<and>
      (\<forall>w e l. segmentChinese DICT maxWordLen str ! k = Token w e \<and> length w < l \<and>
          l \<le> min maxWordLen (length str - segStart (segmentChinese DICT maxWordLen str) k)
          \<longrightarrow> DICT (slice str (segStart (segmentChinese DICT maxWordLen str) k)
                       (segStart (segmentChinese DICT maxWordLen str) k + l)) = None))"
proof -
  let ?segs = "segmentChinese DICT maxWordLen str"
  have whole: "concat (map segText ?segs) = str"
    unfolding segmentChinese_def using segLoop_concat [of 0 str DICT maxWordLen "[]"] by simp
  have first: "segStart ?segs 0 = 0" by (simp add: segStart_def)
  have last: "segStart ?segs (length ?segs) = length str"
    by (simp add: segStart_def whole)
  have each: "segStart ?segs k < length str \<and>
      ?segs ! k = specSegmentAt DICT maxWordLen str (segStart ?segs k) \<and>
      segStart ?segs (Suc k) = segStart ?segs k + length (segText (?segs ! k)) \<and>
      (\<forall>w e l. ?segs ! k = Token w e \<and> length w < l \<and>
          l \<le> min maxWordLen (length str - segStart ?segs k)
          \<longrightarrow> DICT (slice str (segStart ?segs k) (segStart ?segs k + l)) = None)"
    if k: "k < length ?segs" for k
  proof -
    let ?i = "segStart ?segs k"
    have main: "?i < length str \<and> ?segs ! k = specSegmentAt DICT maxWordLen str ?i"
      using segLoop_nth [of k DICT maxWordLen str 0] k by (simp add: segmentChinese_def)
    have adv: "segStart ?segs (Suc k) = ?i + length (segText (?segs ! k))"
      using k by (simp add: segStart_def take_Suc_conv_app_nth)
    have "DICT (slice str ?i (?i + l)) = None"
      if tk: "?segs ! k = Token w e" and l: "length w < l" "l \<le> min maxWordLen (length str - ?i)"
      for w e l
    proof (rule ccontr)
      assume hit: "DICT (slice str ?i (?i + l)) \<noteq> None"
      from main tk have eq: "specSegmentAt DICT maxWordLen str ?i = Token w e" by simp
      then have ne: "matchLengths DICT maxWordLen str ?i \<noteq> {}"
        and w: "w = slice str ?i (?i + Max (matchLengths DICT maxWordLen str ?i))"
        by (auto simp: specSegmentAt_def split: if_splits)
      have "Max (matchLengths DICT maxWordLen str ?i) \<in> matchLengths DICT maxWordLen str ?i"
        using ne finite_matchLengths by (rule_tac Max_in)
      then have "Max (matchLengths DICT maxWordLen str ?i) \<le> length str - ?i"
        by (simp add: matchLengths_def)
      with w have lw: "length w = Max (matchLengths DICT maxWordLen str ?i)"
        by (simp add: length_slice)
      from l hit have "l \<in> matchLengths DICT maxWordLen str ?i"
        by (simp add: matchLengths_def)
      then have "l \<le> Max (matchLengths DICT maxWordLen str ?i)"
        using finite_matchLengths by (rule_tac Max_ge)
      with lw l(1) show False by simp
    qed
    with main adv show ?thesis by blast
  qed
  from whole first last each show ?thesis by blast
qed

text \<open>The inline development dictionary set at the end of the script, with \<open>MAX_WORD_LEN = 2\<close>.\<close>

definition inlineDict :: dict where
  "inlineDict = map_of [
     ([0x4F60, 0x597D],
        \<lparr>en = Some [js ''hello''], py = js ''ni3 hao3'', tag = js ''common'', pos = None\<rparr>),
     ([0x5B66, 0x4E60],
        \<lparr>en = Some [js ''study'', js ''learn''], py = js ''xue2 xi2'', tag = js ''common'',
         pos = None\<rparr>),
     ([0x7814, 0x7A76],
        \<lparr>en = Some [js ''research''], py = js ''yan2 jiu1'', tag = js ''academic'',
         pos = None\<rparr>)]"

text \<open>A dictionary in which a headword is a prefix of another one.\<close>

definition prefixDict :: dict where
  "prefixDict = map_of [
     ([0x4F60], \<lparr>en = Some [js ''you''], py = js ''ni3'', tag = js ''common'', pos = None\<rparr>),
     ([0x4F60, 0x597D],
        \<lparr>en = Some [js ''hello''], py = js ''ni3 hao3'', tag = js ''common'', pos = None\<rparr>)]"

theorem segmentChinese_longest_match_witness:
  "0 < length (segmentChinese prefixDict 2 [0x4F60, 0x597D, 0x5B66]) \<and>
   segmentChinese prefixDict 2 [0x4F60, 0x597D, 0x5B66] ! 0
     = Token [0x4F60, 0x597D]
         \<lparr>en = Some [js ''hello''], py = js ''ni3 hao3'', tag = js ''common'', pos = None\<rparr> \<and>
   specSegmentAt prefixDict 2 [0x4F60, 0x597D, 0x5B66]
       (segStart (segmentChinese prefixDict 2 [0x4F60, 0x597D, 0x5B66]) 0)
     = Token [0x4F60, 0x597D]
         \<lparr>en = Some [js ''hello''], py = js ''ni3 hao3'', tag = js ''common'', pos = None\<rparr>"
proof -
  have ev: "segmentChinese prefixDict 2 [0x4F60, 0x597D, 0x5B66]
      = [Token [0x4F60, 0x597D]
           \<lparr>en = Some [js ''hello''], py = js ''ni3 hao3'', tag = js ''common'', pos = None\<rparr>,
         Literal [0x5B66]]"
    by (simp add: segmentChinese_def segLoop_eval prefixDict_def isCJK_def slice_def)
  have len: "0 < length (segmentChinese prefixDict 2 [0x4F60, 0x597D, 0x5B66])"
    by (simp add: ev)
  from segmentChinese_longest_match [of prefixDict 2 "[0x4F60, 0x597D, 0x5B66]"] len
  have "segmentChinese prefixDict 2 [0x4F60, 0x597D, 0x5B66] ! 0
      = specSegmentAt prefixDict 2 [0x4F60, 0x597D, 0x5B66]
          (segStart (segmentChinese prefixDict 2 [0x4F60, 0x597D, 0x5B66]) 0)"
    by blast
  with len ev show ?thesis by simp
qed

section \<open>JavaScript numbers\<close>

text \<open>
  A JavaScript number is an IEEE 754 double. The values the program computes with are
  modelled as the reals they denote; a product \<open>a * b\<close> is the exact product rounded to
  the nearest double, ties to even (\<open>jsMul\<close>). The rounding: \<open>binade x\<close> is the power of two
  \<open>2^e\<close> with \<open>2^e \<le> x < 2^(e+1)\<close>, the exponent kept between \<open>-1022\<close> and \<open>1023\<close>, so
  that the doubles near \<open>x\<close> are the multiples of \<open>2^e / 2^52\<close>. Results beyond the largest
  double (\<open>Infinity\<close>) and \<open>NaN\<close> are outside the model.
\<close>

definition roundHalfEven :: "real \<Rightarrow> int" where
  "roundHalfEven q =
     (if q - of_int \<lfloor>q\<rfloor> < 1 / 2 then \<lfloor>q\<rfloor>
      else if q - of_int \<lfloor>q\<rfloor> > 1 / 2 then \<lfloor>q\<rfloor> + 1
      else if even \<lfloor>q\<rfloor> then \<lfloor>q\<rfloor> else \<lfloor>q\<rfloor> + 1)"

fun binadeUp :: "nat \<Rightarrow> real \<Rightarrow> real \<Rightarrow> real" where
  "binadeUp fuel x p = (if fuel = 0 \<or> x < 2 * p then p else binadeUp (fuel - 1) x (2 * p))"

fun binadeDown :: "nat \<Rightarrow> real \<Rightarrow> real \<Rightarrow> real" where
  "binadeDown fuel x p = (if fuel = 0 \<or> p \<le> x then p else binadeDown (fuel - 1) x (p / 2))"

declare binadeUp.simps [simp del] binadeDown.simps [simp del]

definition binade :: "real \<Rightarrow> real" where
  "binade x = (if 1 \<le> x then binadeUp 1023 x 1 else binadeDown 1022 x 1)"

definition roundPos :: "real \<Rightarrow> real" where
  "roundPos x = binade x / 2 ^ 52 * of_int (roundHalfEven (x / (binade x / 2 ^ 52)))"

definition roundToDouble :: "real \<Rightarrow> real" where
  "roundToDouble x = (if x = 0 then 0 else if x < 0 then - roundPos (- x) else roundPos x)"

text \<open>A real that is a double: rounding leaves it as it is.\<close>

definition isDouble :: "real \<Rightarrow> bool" where
  "isDouble x \<longleftrightarrow> roundToDouble x = x"

definition jsMul :: "real \<Rightarrow> real \<Rightarrow> real" where
  "jsMul a b = roundToDouble (a * b)"

text \<open>The doubles nearest to 0.15 and to 0.3, the values of the literals in the script.\<close>

definition double_0_15 :: real where
  "double_0_15 = 5404319552844595 / 36028797018963968"

definition double_0_3 :: real where
  "double_0_3 = 5404319552844595 / 18014398509481984"

lemma roundHalfEven_close: "\<bar>of_int (roundHalfEven q) - q\<bar> \<le> 1 / 2"
  unfolding roundHalfEven_def by (auto simp: abs_le_iff)

lemma binadeUp_le: "p \<le> x \<Longrightarrow> binadeUp fuel x p \<le> x"
proof (induction fuel x p rule: binadeUp.induct)
  case (1 fuel x p)
  show ?case
  proof (cases "fuel = 0 \<or> x < 2 * p")
    case True
    with "1.prems" show ?thesis by (subst binadeUp.simps) simp
  next
    case False
    then have "2 * p \<le> x" by simp
    from "1.IH" [OF False this] False show ?thesis by (subst binadeUp.simps) simp
  qed
qed

lemma binadeUp_pos: "0 < p \<Longrightarrow> 0 < binadeUp fuel x p"
proof (induction fuel x p rule: binadeUp.induct)
  case (1 fuel x p)
  show ?case
  proof (cases "fuel = 0 \<or> x < 2 * p")
    case True
    with "1.prems" show ?thesis by (subst binadeUp.simps) simp
  next
    case False
    from "1.prems" have "0 < 2 * p" by simp
    from "1.IH" [OF False this] False show ?thesis by (subst binadeUp.simps) simp
  qed
qed

lemma binadeDown_le: "0 \<le> p \<Longrightarrow> binadeDown fuel x p \<le> p"
proof (induction fuel x p rule: binadeDown.induct)
  case (1 fuel x p)
  show ?case
  proof (cases "fuel = 0 \<or> p \<le> x")
    case True
    then show ?thesis by (subst binadeDown.simps) simp
  next
    case False
    from "1.prems" have "0 \<le> p / 2" by simp
    from "1.IH" [OF False this] False "1.prems" show ?thesis
      by (subst binadeDown.simps) simp
  qed
qed

lemma binadeDown_pos: "0 < p \<Longrightarrow> 0 < binadeDown fuel x p"
proof (induction fuel x p rule: binadeDown.induct)
  case (1 fuel x p)
  show ?case
  proof (cases "fuel = 0 \<or> p \<le> x")
    case True
    with "1.prems" show ?thesis by (subst binadeDown.simps) simp
  next
    case False
    from "1.prems" have "0 < p / 2" by simp
    from "1.IH" [OF False this] False show ?thesis by (subst binadeDown.simps) simp
  qed
qed

lemma binade_pos: "0 < binade x"
  by (simp add: binade_def binadeUp_pos binadeDown_pos)

lemma binade_below_one: "x < 1 \<Longrightarrow> binade x \<le> 1 / 2"
proof -
  assume x: "x < 1"
  have "binadeDown 1022 x 1 = binadeDown 1021 x (1 / 2)"
    using x by (subst binadeDown.simps) simp
  also have "\<dots> \<le> 1 / 2" by (rule binadeDown_le) simp
  finally show ?thesis using x by (simp add: binade_def)
qed

lemma binade_from_one: "1 \<le> x \<Longrightarrow> binade x \<le> x"
  by (simp add: binade_def binadeUp_le)

lemma roundPos_upper: "roundPos x \<le> x + binade x / 2 ^ 53"
proof -
  let ?u = "binade x / 2 ^ 52"
  have u: "0 < ?u" using binade_pos [of x] by simp
  have "of_int (roundHalfEven (x / ?u)) \<le> x / ?u + 1 / 2"
    using roundHalfEven_close [of "x / ?u"] by linarith
  then have "?u * of_int (roundHalfEven (x / ?u)) \<le> ?u * (x / ?u + 1 / 2)"
    using u by (simp only: mult_le_cancel_left_pos)
  also have "\<dots> = x + ?u / 2" using u by (simp add: distrib_left)
  finally show ?thesis by (simp add: roundPos_def)
qed

text \<open>A double below 1 is at most \<open>1 - 2^-53\<close>.\<close>

lemma double_below_one:
  assumes "isDouble u" and "0 \<le> u" and "u < 1"
  shows "u \<le> 1 - 1 / 2 ^ 53"
proof (cases "u < 1 / 2")
  case True
  then show ?thesis by simp
next
  case False
  then have h: "1 / 2 \<le> u" by simp
  have "binadeDown 1022 u 1 = binadeDown 1021 u (1 / 2)"
    using assms(3) by (subst binadeDown.simps) simp
  also have "\<dots> = 1 / 2" using h by (subst binadeDown.simps) simp
  finally have b: "binade u = 1 / 2" using assms(3) by (simp add: binade_def)
  from assms(1) h have "roundPos u = u" by (simp add: isDouble_def roundToDouble_def split: if_splits)
  then have eq: "of_int (roundHalfEven (u * 2 ^ 53)) = u * 2 ^ 53"
    by (simp add: roundPos_def b field_simps)
  with assms(3) have "of_int (roundHalfEven (u * 2 ^ 53)) < (2 ^ 53 :: real)" by simp
  then have "roundHalfEven (u * 2 ^ 53) < 2 ^ 53" by (simp add: of_int_less_iff [symmetric] del: of_int_less_iff)
  then have "roundHalfEven (u * 2 ^ 53) \<le> 2 ^ 53 - 1" by simp
  then have "of_int (roundHalfEven (u * 2 ^ 53)) \<le> (2 ^ 53 - 1 :: real)"
    by (simp add: of_int_le_iff [symmetric] del: of_int_le_iff)
  with eq have "u * 2 ^ 53 \<le> 2 ^ 53 - 1" by simp
  then show ?thesis by (simp add: field_simps)
qed

text \<open>The rounded product of a double below 1 with a positive integer stays below it.\<close>

lemma jsMul_random_below:
  assumes "isDouble u" and "0 \<le> u" and "u < 1" and "0 < n"
  shows "jsMul u (real n) < real n"
proof -
  let ?x = "u * real n"
  have u1: "u \<le> 1 - 1 / 2 ^ 53" by (rule double_below_one [OF assms(1-3)])
  have n1: "1 \<le> real n" using assms(4) by simp
  have xn: "?x \<le> real n * (1 - 1 / 2 ^ 53)"
    using u1 n1 by (simp add: mult.commute mult_left_mono)
  have x0: "0 \<le> ?x" using assms(2) by simp
  show ?thesis
  proof (cases "?x = 0")
    case True
    then show ?thesis using n1 by (simp add: jsMul_def roundToDouble_def)
  next
    case False
    with x0 have r: "jsMul u (real n) = roundPos ?x"
      by (simp add: jsMul_def roundToDouble_def)
    show ?thesis
    proof (cases "1 \<le> ?x")
      case True
      from roundPos_upper [of ?x] binade_from_one [OF True]
      have "roundPos ?x \<le> ?x + ?x / 2 ^ 53" by (simp add: divide_right_mono order_trans)
      also have "\<dots> = ?x * (1 + 1 / 2 ^ 53)" by (simp add: distrib_left)
      also have "\<dots> \<le> real n * (1 - 1 / 2 ^ 53) * (1 + 1 / 2 ^ 53)"
        using xn by (simp add: mult_right_mono)
      also have "\<dots> < real n" using n1 by (simp add: field_simps)
      finally show ?thesis using r by simp
    next
      case small: False
      then have "?x < 1" by simp
      then have b: "binade ?x \<le> 1 / 2" by (rule binade_below_one)
      from roundPos_upper [of ?x] b
      have up: "roundPos ?x \<le> ?x + 1 / 2 ^ 54" by (simp add: field_simps)
      show ?thesis
      proof (cases "n = 1")
        case True
        with u1 up show ?thesis using r by simp
      next
        case False
        with assms(4) have "2 \<le> real n" by simp
        with up small show ?thesis using r by simp
      qed
    qed
  qed
qed

lemma random_index_bound:
  assumes "isDouble u" and "0 \<le> u" and "u < 1" and "0 < n"
  shows "nat \<lfloor>jsMul u (real n)\<rfloor> < n"
proof -
  have "jsMul u (real n) < real n" by (rule jsMul_random_below [OF assms])
  then have "\<lfloor>jsMul u (real n)\<rfloor> < int n" by (simp add: floor_less_iff)
  with assms(4) show ?thesis by linarith
qed

section \<open>Settings and the noun filter\<close>

record settings =
  enabled :: bool
  ratio :: real
  onlyNouns :: bool
  blacklist :: "jsstring list option"
  minNodeLen :: nat
  minChineseRatio :: real

definition DEFAULT_SETTINGS :: settings where
  "DEFAULT_SETTINGS = \<lparr>enabled = True, ratio = double_0_15, onlyNouns = True,
     blacklist = Some [], minNodeLen = 4, minChineseRatio = double_0_3\<rparr>"

text \<open>
  The characters matched by \<open>\s\<close> in a regular expression and removed by \<open>trim\<close>:
  the ECMAScript white space and line terminator code points.
\<close>

definition isWhiteSpace :: "jschar \<Rightarrow> bool" where
  "isWhiteSpace c \<longleftrightarrow>
     c \<in> {0x09, 0x0A, 0x0B, 0x0C, 0x0D, 0x20, 0xA0, 0x1680, 0x2028, 0x2029, 0x202F, 0x205F,
          0x3000, 0xFEFF} \<or> (0x2000 \<le> c \<and> c \<le> 0x200A)"

definition trim :: "jsstring \<Rightarrow> jsstring" where
  "trim s = rev (dropWhile isWhiteSpace (rev (dropWhile isWhiteSpace s)))"

text \<open>
  \<open>String.prototype.toLowerCase\<close> follows the Unicode case tables of the host. It is a
  parameter \<open>toLowerCase\<close> of \<open>isNounLike\<close> and of the functions that call it. On a
  string of ASCII code units it lower-cases the letters \<open>A..Z\<close>, which is
  \<open>asciiLowerCase\<close>; the evaluations below pass it and only reach it on such strings.
\<close>

definition asciiLowerCase :: "jsstring \<Rightarrow> jsstring" where
  "asciiLowerCase s = map (\<lambda>c. if 65 \<le> c \<and> c \<le> 90 then c + 32 else c) s"

definition startsWith :: "jsstring \<Rightarrow> jsstring \<Rightarrow> bool" where
  "startsWith s p \<longleftrightarrow> take (length p) s = p"

definition endsWith :: "jsstring \<Rightarrow> jsstring \<Rightarrow> bool" where
  "endsWith s p \<longleftrightarrow> length p \<le> length s \<and> drop (length s - length p) s = p"

text \<open>\<open>s.split(/\s+/)\<close>: the pieces between maximal runs of white space.\<close>

function splitWs :: "jsstring \<Rightarrow> jsstring \<Rightarrow> jsstring list" where
  "splitWs cur [] = [cur]"
| "splitWs cur (c # cs) =
     (if isWhiteSpace c then cur # splitWs [] (dropWhile isWhiteSpace cs)
      else splitWs (cur @ [c]) cs)"
  by pat_completeness auto
termination
  by (relation "measure (\<lambda>(cur, s). length s)")
     (auto simp: length_dropWhile_le le_imp_less_Suc)

definition NOUN_SUFFIX :: "jsstring list" where
  "NOUN_SUFFIX = map js [''tion'', ''ment'', ''ness'', ''ity'', ''ship'', ''ance'', ''ence'',
     ''ism'', ''ist'', ''age'', ''ery'', ''or'', ''er'', ''ment'', ''dom'', ''hood'', ''acy'',
     ''tude'', ''ure'']"

definition NOUN_HEADS :: "jsstring list" where
  "NOUN_HEADS = map js [''club'', ''league'', ''game'', ''year'', ''page'', ''subscription'',
     ''team'', ''player'', ''policy'', ''system'', ''city'', ''country'', ''company'', ''people'',
     ''market'', ''law'', ''right'', ''time'', ''university'', ''school'', ''teacher'',
     ''student'', ''government'', ''manager'', ''engineer'', ''result'', ''research'', ''study'',
     ''data'', ''method'', ''model'', ''problem'', ''solution'', ''case'', ''issue'', ''service'',
     ''product'', ''plan'', ''project'', ''area'', ''region'', ''river'', ''mountain'',
     ''province'', ''county'', ''district'', ''airport'', ''station'', ''museum'', ''library'',
     ''network'', ''computer'', ''program'', ''software'', ''hardware'', ''mobile'', ''phone'',
     ''car'', ''bus'', ''train'', ''plane'', ''house'', ''room'', ''home'', ''office'',
     ''doctor'', ''hospital'', ''money'', ''price'', ''cost'', ''salary'', ''contract'',
     ''agreement'', ''league'', ''match'', ''coach'', ''referee'', ''stadium'']"

definition isNounLike :: "(jsstring \<Rightarrow> jsstring) \<Rightarrow> jsstring \<Rightarrow> bool" where
  "isNounLike toLowerCase sense =
     (if sense = [] then False
      else let s = toLowerCase (trim sense) in
        if s = [] then False
        else if startsWith s (js ''to '') then False
        else let parts = splitWs [] s; head = last parts in
          if length parts = 1 then
            (if endsWith head (js ''ing'') then False
             else if list_ex (endsWith head) NOUN_SUFFIX then True
             else if head \<in> set NOUN_HEADS then True
             else if length head \<ge> 4 \<and> 45 \<notin> set head then True
             else False)
          else
            (if head \<in> set NOUN_HEADS then True
             else if hd parts = js ''to'' then False
             else True))"

definition tokenAllowed :: "(jsstring \<Rightarrow> jsstring) \<Rightarrow> settings \<Rightarrow> entry \<Rightarrow> bool" where
  "tokenAllowed toLowerCase cfg entry =
     (let sense = chooseSense entry in
        if sense = [] \<or> list_ex isWhiteSpace sense then False
        else if \<not> onlyNouns cfg then True
        else if pos entry = Some (js ''n'') \<or> pos entry = Some (js ''noun'') then True
        else isNounLike toLowerCase sense)"

section \<open>sampleIndices\<close>

text \<open>
  \<open>Math.random()\<close> is an input of the model: \<open>rand i\<close> is the value returned by the
  call made in iteration \<open>i\<close> of the loop, a double in \<open>[0, 1)\<close>. Both products,
  \<open>Math.random() * n\<close> and \<open>n * ratio\<close>, are double products. The \<open>Set\<close> of indices is
  the list of its members in insertion order.
\<close>

definition setAdd :: "nat list \<Rightarrow> nat \<Rightarrow> nat list" where
  "setAdd idxs r = (if r \<in> set idxs then idxs else idxs @ [r])"

function sampleLoop :: "nat \<Rightarrow> int \<Rightarrow> (nat \<Rightarrow> real) \<Rightarrow> nat list \<Rightarrow> nat \<Rightarrow> nat list" where
  "sampleLoop n target rand idxs i =
     (if int (length idxs) < target \<and> i < n * 3
      then sampleLoop n target rand (setAdd idxs (nat \<lfloor>jsMul (rand i) (real n)\<rfloor>)) (i + 1)
      else idxs)"
  by pat_completeness auto
termination
  by (relation "measure (\<lambda>(n, target, rand, idxs, i). n * 3 - i)") auto

declare sampleLoop.simps [simp del]

definition sampleIndices :: "nat \<Rightarrow> real \<Rightarrow> (nat \<Rightarrow> real) \<Rightarrow> nat list" where
  "sampleIndices n p rand = sampleLoop n (max 1 \<lfloor>jsMul (real n) p\<rfloor>) rand [] 0"

section \<open>createSpan, charKind and the rendering loop of replaceInNode\<close>

record span =
  className :: jsstring
  textContent :: jsstring
  data_original :: jsstring
  data_tip :: jsstring

datatype node = TextNode jsstring | SpanNode span

definition spanClass :: jsstring where
  "spanClass = js ''mixen-word''"

text \<open>The display text \<open>chooseSense(entry) || word\<close>.\<close>

definition displayText :: "jsstring \<Rightarrow> entry \<Rightarrow> jsstring" where
  "displayText word entry = (if chooseSense entry \<noteq> [] then chooseSense entry else word)"

definition createSpan :: "jsstring \<Rightarrow> entry \<Rightarrow> bool \<Rightarrow> bool \<Rightarrow> span" where
  "createSpan word entry leadingSpace trailingSpace =
     \<lparr>className = spanClass,
      textContent = (if leadingSpace then [32] else []) @ displayText word entry
                      @ (if trailingSpace then [32] else []),
      data_original = word,
      data_tip = displayText word entry @ [32, 0x2022, 32] @ word\<rparr>"

datatype CharKind = CJK | LATIN | SPACE | PUNCT | OTHER

definition charKind :: "jsstring \<Rightarrow> CharKind" where
  "charKind ch =
     (case ch of
        [] \<Rightarrow> OTHER
      | code # rest \<Rightarrow>
          if code = 32 \<or> ch = [10] \<or> ch = [9] \<or> ch = [13] then SPACE
          else if code \<ge> 0x4E00 \<and> code \<le> 0x9FFF then CJK
          else if (code \<ge> 48 \<and> code \<le> 57) \<or> (code \<ge> 65 \<and> code \<le> 90)
                  \<or> (code \<ge> 97 \<and> code \<le> 122) then LATIN
          else PUNCT)"

text \<open>
  The values \<open>prevKind\<close>, \<open>nextKind\<close>, \<open>nextIsReplaced\<close>, \<open>leading\<close> and \<open>trailing\<close>
  computed for the segment at index \<open>i\<close>; \<open>replaceSet\<close> is the set of segment indices
  to replace.
\<close>

definition prevKind :: "segment list \<Rightarrow> nat set \<Rightarrow> nat \<Rightarrow> CharKind" where
  "prevKind segments replaceSet i =
     (if i > 0 then
        (case segments ! (i - 1) of
           Token w e \<Rightarrow> if i - 1 \<in> replaceSet then LATIN else CJK
         | Literal s \<Rightarrow> charKind s)
      else SPACE)"

definition nextIsReplaced :: "segment list \<Rightarrow> nat set \<Rightarrow> nat \<Rightarrow> bool" where
  "nextIsReplaced segments replaceSet i =
     (if i + 1 < length segments then
        (case segments ! (i + 1) of
           Token w e \<Rightarrow> i + 1 \<in> replaceSet
         | Literal s \<Rightarrow> False)
      else False)"

definition nextKind :: "segment list \<Rightarrow> nat set \<Rightarrow> nat \<Rightarrow> CharKind" where
  "nextKind segments replaceSet i =
     (if i + 1 < length segments then
        (case segments ! (i + 1) of
           Token w e \<Rightarrow> if nextIsReplaced segments replaceSet i then LATIN else CJK
         | Literal s \<Rightarrow> charKind s)
      else SPACE)"

definition leading :: "segment list \<Rightarrow> nat set \<Rightarrow> nat \<Rightarrow> bool" where
  "leading segments replaceSet i \<longleftrightarrow>
     prevKind segments replaceSet i = CJK \<or> prevKind segments replaceSet i = LATIN"

definition trailing :: "segment list \<Rightarrow> nat set \<Rightarrow> nat \<Rightarrow> bool" where
  "trailing segments replaceSet i \<longleftrightarrow>
     (nextKind segments replaceSet i = CJK \<or> nextKind segments replaceSet i = LATIN)
     \<and> \<not> nextIsReplaced segments replaceSet i"

text \<open>
  One iteration of the loop that fills the fragment: the node appended for segment \<open>i\<close>.
  (The variable \<open>lastKind\<close> of the source is assigned in each branch and never read.)
\<close>

definition renderSeg :: "segment list \<Rightarrow> nat set \<Rightarrow> nat \<Rightarrow> node" where
  "renderSeg segments replaceSet i =
     (case segments ! i of
        Token w e \<Rightarrow>
          if i \<in> replaceSet
          then SpanNode (createSpan w e (leading segments replaceSet i)
                          (trailing segments replaceSet i))
          else TextNode w
      | Literal s \<Rightarrow> TextNode s)"

definition render :: "segment list \<Rightarrow> nat set \<Rightarrow> node list" where
  "render segments replaceSet = map (renderSeg segments replaceSet) [0..<length segments]"

section \<open>replaceInNode and revertAll\<close>

record stats =
  nodes :: nat
  tokens :: nat
  replaced :: nat

text \<open>The indices of the segments that are objects and pass \<open>tokenAllowed\<close>.\<close>

definition eligible :: "(jsstring \<Rightarrow> jsstring) \<Rightarrow> settings \<Rightarrow> segment list \<Rightarrow> nat list" where
  "eligible toLowerCase cfg segments =
     filter (\<lambda>i. case segments ! i of
                  Token w e \<Rightarrow> tokenAllowed toLowerCase cfg e
                | Literal s \<Rightarrow> False)
       [0..<length segments]"

text \<open>
  \<open>new Set(Array.from(idxs).map(k => tokens[k]))\<close>; an index beyond the array would give
  \<open>undefined\<close>, which is no segment index.
\<close>

definition replaceSetOf :: "nat list \<Rightarrow> nat list \<Rightarrow> nat set" where
  "replaceSetOf toks idxs =
     set (List.map_filter (\<lambda>k. if k < length toks then Some (toks ! k) else None) idxs)"

text \<open>
  \<open>replaceInNode\<close> on a text node with value \<open>str\<close>: the nodes that stand in its place
  afterwards, and the updated counters. With no eligible token the function returns early
  and the text node stays.
\<close>

definition replaceInNode ::
  "(jsstring \<Rightarrow> jsstring) \<Rightarrow> settings \<Rightarrow> dict \<Rightarrow> nat \<Rightarrow> (nat \<Rightarrow> real) \<Rightarrow> stats \<Rightarrow> jsstring
     \<Rightarrow> node list \<times> stats" where
  "replaceInNode toLowerCase cfg DICT maxWordLen rand st str =
     (let segments = segmentChinese DICT maxWordLen str;
          toks = eligible toLowerCase cfg segments
      in if length toks = 0 then ([TextNode str], st)
         else
           let idxs = sampleIndices (length toks) (ratio cfg) rand;
               replaceSet = replaceSetOf toks idxs
           in (render segments replaceSet,
               st\<lparr>tokens := tokens st + length toks,
                  replaced := replaced st + card replaceSet\<rparr>))"

text \<open>
  The class selector \<open>.mixen-word\<close> matches an element whose \<open>class\<close> attribute, split at
  ASCII white space, has \<open>mixen-word\<close> among its tokens.
\<close>

definition isAsciiWhitespace :: "jschar \<Rightarrow> bool" where
  "isAsciiWhitespace c \<longleftrightarrow> c \<in> {0x09, 0x0A, 0x0C, 0x0D, 0x20}"

fun classTokens :: "jsstring \<Rightarrow> jsstring \<Rightarrow> jsstring list" where
  "classTokens cur [] = (if cur = [] then [] else [cur])"
| "classTokens cur (c # cs) =
     (if isAsciiWhitespace c
      then (if cur = [] then classTokens [] cs else cur # classTokens [] cs)
      else classTokens (cur @ [c]) cs)"

definition hasClass :: "jsstring \<Rightarrow> span \<Rightarrow> bool" where
  "hasClass cls sp \<longleftrightarrow> cls \<in> set (classTokens [] (className sp))"

text \<open>
  \<open>revertAll\<close> on a list of sibling nodes: every \<open>span.mixen-word[data-original]\<close> is
  replaced by a text node holding its \<open>data-original\<close> (every span of the model carries
  this attribute).
\<close>

definition revertAll :: "node list \<Rightarrow> node list" where
  "revertAll children =
     map (\<lambda>n. case n of
                SpanNode sp \<Rightarrow>
                  if hasClass spanClass sp then TextNode (data_original sp) else SpanNode sp
              | TextNode s \<Rightarrow> TextNode s) children"

fun nodeText :: "node \<Rightarrow> jsstring" where
  "nodeText (TextNode s) = s"
| "nodeText (SpanNode sp) = textContent sp"

definition textOf :: "node list \<Rightarrow> jsstring" where
  "textOf ns = concat (map nodeText ns)"

fun isSpan :: "node \<Rightarrow> bool" where
  "isSpan (TextNode s) = False"
| "isSpan (SpanNode sp) = True"

lemma distinct_setAdd: "distinct idxs \<Longrightarrow> distinct (setAdd idxs r)"
  by (simp add: setAdd_def)

lemma length_setAdd: "length (setAdd idxs r) \<le> length idxs + 1"
  by (simp add: setAdd_def)

lemma length_setAdd_ge: "length idxs \<le> length (setAdd idxs r)"
  by (simp add: setAdd_def)

lemma set_setAdd: "set (setAdd idxs r) = insert r (set idxs)"
  by (auto simp: setAdd_def)

lemma sampleLoop_step:
  "int (length idxs) < target \<Longrightarrow> i < n * 3 \<Longrightarrow>
     sampleLoop n target rand idxs i
       = sampleLoop n target rand (setAdd idxs (nat \<lfloor>jsMul (rand i) (real n)\<rfloor>)) (i + 1)"
  by (subst sampleLoop.simps) simp

lemma sampleLoop_stop:
  "\<not> (int (length idxs) < target \<and> i < n * 3) \<Longrightarrow> sampleLoop n target rand idxs i = idxs"
  by (subst sampleLoop.simps) (rule if_not_P)

lemma sampleLoop_distinct:
  "distinct idxs \<Longrightarrow> distinct (sampleLoop n target rand idxs i)"
proof (induction n target rand idxs i rule: sampleLoop.induct)
  case (1 n target rand idxs i)
  show ?case
  proof (cases "int (length idxs) < target \<and> i < n * 3")
    case True
    from "1.IH" [OF True distinct_setAdd [OF "1.prems"]] True show ?thesis
      by (simp add: sampleLoop_step)
  next
    case False
    with "1.prems" show ?thesis by (simp add: sampleLoop_stop)
  qed
qed

lemma sampleLoop_length_le:
  "int (length idxs) \<le> target \<Longrightarrow> int (length (sampleLoop n target rand idxs i)) \<le> target"
proof (induction n target rand idxs i rule: sampleLoop.induct)
  case (1 n target rand idxs i)
  show ?case
  proof (cases "int (length idxs) < target \<and> i < n * 3")
    case True
    have "int (length (setAdd idxs (nat \<lfloor>jsMul (rand i) (real n)\<rfloor>))) \<le> target"
      using True length_setAdd [of idxs "nat \<lfloor>jsMul (rand i) (real n)\<rfloor>"] by linarith
    from "1.IH" [OF True this] True show ?thesis
      by (simp add: sampleLoop_step)
  next
    case False
    with "1.prems" show ?thesis by (simp add: sampleLoop_stop)
  qed
qed

lemma sampleLoop_length_ge:
  "length idxs \<le> length (sampleLoop n target rand idxs i)"
proof (induction n target rand idxs i rule: sampleLoop.induct)
  case (1 n target rand idxs i)
  show ?case
  proof (cases "int (length idxs) < target \<and> i < n * 3")
    case True
    from "1.IH" [OF True] length_setAdd_ge [of idxs "nat \<lfloor>jsMul (rand i) (real n)\<rfloor>"]
    have "length idxs
            \<le> length (sampleLoop n target rand (setAdd idxs (nat \<lfloor>jsMul (rand i) (real n)\<rfloor>)) (i + 1))"
      by (rule_tac order_trans)
    with True show ?thesis by (simp add: sampleLoop_step)
  next
    case False
    then show ?thesis by (simp add: sampleLoop_stop)
  qed
qed

lemma sampleLoop_range:
  "\<forall>j. isDouble (rand j) \<and> 0 \<le> rand j \<and> rand j < 1 \<Longrightarrow> \<forall>r\<in>set idxs. r < n \<Longrightarrow>
     \<forall>r\<in>set (sampleLoop n target rand idxs i). r < n"
proof (induction n target rand idxs i rule: sampleLoop.induct)
  case (1 n target rand idxs i)
  show ?case
  proof (cases "int (length idxs) < target \<and> i < n * 3")
    case True
    then have "0 < n" by simp
    moreover from "1.prems"(1) have "isDouble (rand i)" "0 \<le> rand i" "rand i < 1" by simp_all
    ultimately have "nat \<lfloor>jsMul (rand i) (real n)\<rfloor> < n"
      by (intro random_index_bound)
    with "1.prems"(2) have "\<forall>r\<in>set (setAdd idxs (nat \<lfloor>jsMul (rand i) (real n)\<rfloor>)). r < n"
      by (simp add: set_setAdd)
    from "1.IH" [OF True "1.prems"(1) this] True show ?thesis
      by (simp add: sampleLoop_step)
  next
    case False
    with "1.prems" show ?thesis by (simp add: sampleLoop_stop)
  qed
qed

lemma sampleIndices_nonempty:
  assumes "1 \<le> n"
  shows "1 \<le> length (sampleIndices n p rand)"
proof -
  let ?t = "max 1 \<lfloor>jsMul (real n) p\<rfloor>"
  have "sampleLoop n ?t rand [] 0 = sampleLoop n ?t rand (setAdd [] (nat \<lfloor>jsMul (rand 0) (real n)\<rfloor>)) (0 + 1)"
    using assms by (intro sampleLoop_step) auto
  moreover have "length (setAdd [] (nat \<lfloor>jsMul (rand 0) (real n)\<rfloor>))
        \<le> length (sampleLoop n ?t rand (setAdd [] (nat \<lfloor>jsMul (rand 0) (real n)\<rfloor>)) (0 + 1))"
    by (rule sampleLoop_length_ge)
  ultimately show ?thesis by (simp add: sampleIndices_def setAdd_def)
qed

text \<open>
  C2, as the code has it. With \<open>Math.random\<close> returning doubles in \<open>[0, 1)\<close> and a ratio
  \<open>p\<close> in \<open>[0, 1]\<close>, the sampling step on \<open>k\<close> eligible tokens returns distinct indices
  below \<open>k\<close>, at most \<open>max(1, floor(k * p))\<close> of them with \<open>k * p\<close> the double product,
  and at least one when \<open>k \<ge> 1\<close> and \<open>p > 0\<close>.
\<close>

theorem sampleIndices_double_bound:
  assumes "\<forall>j. isDouble (rand j) \<and> 0 \<le> rand j \<and> rand j < 1" and "0 \<le> p" and "p \<le> 1"
  shows "distinct (sampleIndices k p rand) \<and>
         int (length (sampleIndices k p rand)) \<le> max 1 \<lfloor>jsMul (real k) p\<rfloor> \<and>
         (\<forall>r\<in>set (sampleIndices k p rand). r < k) \<and>
         (1 \<le> k \<and> 0 < p \<longrightarrow> 1 \<le> length (sampleIndices k p rand))"
proof -
  have "distinct (sampleIndices k p rand)"
    unfolding sampleIndices_def by (rule sampleLoop_distinct) simp
  moreover have "int (length (sampleIndices k p rand)) \<le> max 1 \<lfloor>jsMul (real k) p\<rfloor>"
    unfolding sampleIndices_def by (rule sampleLoop_length_le) simp
  moreover have "\<forall>r\<in>set (sampleIndices k p rand). r < k"
    unfolding sampleIndices_def by (rule sampleLoop_range [OF assms(1)]) simp
  moreover have "1 \<le> k \<and> 0 < p \<longrightarrow> 1 \<le> length (sampleIndices k p rand)"
    using sampleIndices_nonempty by blast
  ultimately show ?thesis by blast
qed

text \<open>Evaluation of the rounding on the numbers used below.\<close>

lemmas roundToDouble_eval =
  jsMul_def roundToDouble_def roundPos_def binade_def binadeUp.simps binadeDown.simps
  roundHalfEven_def

lemma isDouble_quarters:
  "\<forall>j::nat. isDouble (if j = 0 then 0 else if j = 1 then 1 / 4 else 1 / 2) \<and>
        0 \<le> (if j = 0 then 0 else if j = 1 then 1 / 4 else 1 / 2 :: real) \<and>
        (if j = 0 then 0 else if j = 1 then 1 / 4 else 1 / 2 :: real) < 1"
  by (simp add: isDouble_def roundToDouble_eval)

lemma sample_20_eval:
  "sampleIndices 20 double_0_15 (\<lambda>j. if j = 0 then 0 else if j = 1 then 1 / 4 else 1 / 2)
     = [0, 5, 10]"
proof -
  have t: "jsMul 20 double_0_15 = 3"
    by (simp add: double_0_15_def roundToDouble_eval)
  have d: "jsMul 0 20 = 0" "jsMul (1 / 4) 20 = 5" "jsMul (1 / 2) 20 = 10"
    by (simp_all add: roundToDouble_eval)
  show ?thesis
    by (simp add: sampleIndices_def t sampleLoop.simps d setAdd_def)
qed

theorem sampleIndices_ratio_counterexample:
  "isDouble double_0_15 \<and> 0 \<le> double_0_15 \<and> double_0_15 \<le> 1 \<and>
   max 1 \<lfloor>real (20::nat) * double_0_15\<rfloor> = 2 \<and>
   sampleIndices 20 double_0_15 (\<lambda>j. if j = 0 then 0 else if j = 1 then 1 / 4 else 1 / 2)
     = [0, 5, 10] \<and>
   \<not> int (length (sampleIndices 20 double_0_15
                      (\<lambda>j. if j = 0 then 0 else if j = 1 then 1 / 4 else 1 / 2)))
       \<le> max 1 \<lfloor>real (20::nat) * double_0_15\<rfloor>"
proof -
  have "isDouble double_0_15"
    by (simp add: isDouble_def double_0_15_def roundToDouble_eval)
  moreover have "max 1 \<lfloor>real (20::nat) * double_0_15\<rfloor> = 2"
    by (simp add: double_0_15_def)
  ultimately show ?thesis
    by (simp add: sample_20_eval) (simp add: double_0_15_def)
qed

theorem sampleIndices_double_bound_witness:
  "sampleIndices 20 double_0_15 (\<lambda>j. if j = 0 then 0 else if j = 1 then 1 / 4 else 1 / 2)
     = [0, 5, 10] \<and>
   max 1 \<lfloor>jsMul (real (20::nat)) double_0_15\<rfloor> = 3 \<and>
   int (length (sampleIndices 20 double_0_15
                  (\<lambda>j. if j = 0 then 0 else if j = 1 then 1 / 4 else 1 / 2)))
     \<le> max 1 \<lfloor>jsMul (real (20::nat)) double_0_15\<rfloor>"
proof -
  have p: "0 \<le> double_0_15" "double_0_15 \<le> 1" by (simp_all add: double_0_15_def)
  have t: "jsMul (real (20::nat)) double_0_15 = 3"
    by (simp add: double_0_15_def roundToDouble_eval)
  from sampleIndices_double_bound [OF isDouble_quarters p, of 20] sample_20_eval t
  show ?thesis by simp
qed

section \<open>Properties of rendering and reverting\<close>

lemma length_render: "length (render segments replaceSet) = length segments"
  by (simp add: render_def)

lemma render_nth:
  "i < length segments \<Longrightarrow> render segments replaceSet ! i = renderSeg segments replaceSet i"
  by (simp add: render_def)

lemma hasClass_createSpan:
  "hasClass spanClass (createSpan word entry leadingSpace trailingSpace)"
  by (simp add: hasClass_def createSpan_def spanClass_def js_def isAsciiWhitespace_def)

lemma revert_renderSeg:
  "(case renderSeg segments replaceSet i of
      SpanNode sp \<Rightarrow> if hasClass spanClass sp then TextNode (data_original sp) else SpanNode sp
    | TextNode s \<Rightarrow> TextNode s) = TextNode (segText (segments ! i))"
  by (cases "segments ! i") (simp_all add: renderSeg_def hasClass_createSpan, simp add: createSpan_def)

lemma revertAll_render:
  "revertAll (render segments replaceSet) = map (\<lambda>s. TextNode (segText s)) segments"
proof -
  have "revertAll (render segments replaceSet)
          = map (\<lambda>i. TextNode (segText (segments ! i))) [0..<length segments]"
    by (simp add: revertAll_def render_def revert_renderSeg)
  also have "\<dots> = map (\<lambda>s. TextNode (segText s)) (map (\<lambda>i. segments ! i) [0..<length segments])"
    by simp
  also have "map (\<lambda>i. segments ! i) [0..<length segments] = segments"
    by (rule map_nth)
  finally show ?thesis .
qed

lemma textOf_revertAll_render:
  "textOf (revertAll (render segments replaceSet)) = concat (map segText segments)"
  by (simp add: revertAll_render textOf_def comp_def)

lemma segLoop_nonempty:
  "\<forall>s\<in>set out. segText s \<noteq> [] \<Longrightarrow> \<forall>s\<in>set (segLoop DICT m str i out). segText s \<noteq> []"
proof (induction DICT m str i out rule: segLoop.induct)
  case (1 DICT m str i out)
  show ?case
  proof (cases "i < length str")
    case False
    then have "segLoop DICT m str i out = out" by (subst segLoop.simps) simp
    with "1.prems" show ?thesis by simp
  next
    case inb: True
    have lit: "\<forall>s\<in>set (out @ [Literal [str ! i]]). segText s \<noteq> []"
      using "1.prems" by simp
    show ?thesis
    proof (cases "isCJK (str ! i)")
      case False
      have "segLoop DICT m str i out = segLoop DICT m str (i + 1) (out @ [Literal [str ! i]])"
        using inb False by (subst segLoop.simps) simp
      with "1.IH"(3) [OF inb False lit] show ?thesis by simp
    next
      case cjk: True
      show ?thesis
      proof (cases "findMatch DICT str i (min m (length str - i))")
        case None
        have "segLoop DICT m str i out = segLoop DICT m str (i + 1) (out @ [Literal [str ! i]])"
          using inb cjk None by (subst segLoop.simps) simp
        with "1.IH"(1) [OF inb cjk None lit] show ?thesis by simp
      next
        case (Some p)
        obtain w e where fm: "findMatch DICT str i (min m (length str - i)) = Some (w, e)"
          using Some by (cases p) simp
        have "0 < length w" by (rule findMatch_length [OF fm inb])
        with "1.prems" have tok: "\<forall>s\<in>set (out @ [Token w e]). segText s \<noteq> []" by simp
        have "segLoop DICT m str i out = segLoop DICT m str (i + length w) (out @ [Token w e])"
          using inb cjk fm by (subst segLoop.simps) simp
        with "1.IH"(2) [OF inb cjk fm refl tok] show ?thesis by simp
      qed
    qed
  qed
qed

lemma segmentChinese_nonempty:
  "s \<in> set (segmentChinese DICT m str) \<Longrightarrow> segText s \<noteq> []"
  using segLoop_nonempty [of "[]" DICT m str 0] by (simp add: segmentChinese_def)

text \<open>
  C3. Reverting the rendering of a segmented run turns every node back into a text node
  holding exactly the text of its segment, a span through the word stored in its
  \<open>data-original\<close>; so the text of the reverted nodes is the run itself, for every
  dictionary, every set of replaced indices, and also through \<open>replaceInNode\<close>.
\<close>

theorem revert_render_roundtrip:
  "data_original (createSpan word entry leadingSpace trailingSpace) = word \<and>
   revertAll (render (segmentChinese DICT maxWordLen str) replaceSet)
     = map (\<lambda>s. TextNode (segText s)) (segmentChinese DICT maxWordLen str) \<and>
   textOf (revertAll (render (segmentChinese DICT maxWordLen str) replaceSet)) = str \<and>
   textOf (revertAll (fst (replaceInNode toLowerCase cfg DICT maxWordLen rand st str))) = str"
proof -
  have seg: "concat (map segText (segmentChinese DICT maxWordLen str)) = str"
    unfolding segmentChinese_def using segLoop_concat [of 0 str DICT maxWordLen "[]"] by simp
  have a: "textOf (revertAll (render (segmentChinese DICT maxWordLen str) rs)) = str" for rs
    by (simp add: textOf_revertAll_render seg)
  have "textOf (revertAll (fst (replaceInNode toLowerCase cfg DICT maxWordLen rand st str))) = str"
    by (simp add: replaceInNode_def Let_def a) (simp add: revertAll_def textOf_def)
  with a show ?thesis
    by (simp add: revertAll_render createSpan_def)
qed

section \<open>Display sense\<close>

lemma displayText_nonempty: "word \<noteq> [] \<Longrightarrow> displayText word entry \<noteq> []"
  by (simp add: displayText_def)

text \<open>
  C10. For an entry whose sense list is missing or empty \<open>chooseSense\<close> returns the empty
  string and the span shows the original word; the display text of a span is never empty
  for a non-empty word, and every token of the segmenter has a non-empty word.
\<close>

theorem chooseSense_empty_fallback:
  "(en entry = None \<or> en entry = Some [] \<longrightarrow>
      chooseSense entry = [] \<and> displayText word entry = word \<and>
      textContent (createSpan word entry False False) = word) \<and>
   (word \<noteq> [] \<longrightarrow> displayText word entry \<noteq> []) \<and>
   (\<forall>w e. Token w e \<in> set (segmentChinese DICT maxWordLen str) \<longrightarrow>
      w \<noteq> [] \<and> displayText w e \<noteq> [])"
proof -
  have "w \<noteq> [] \<and> displayText w e \<noteq> []"
    if "Token w e \<in> set (segmentChinese DICT maxWordLen str)" for w e
    using segmentChinese_nonempty [OF that] by (simp add: displayText_nonempty)
  moreover have "chooseSense entry = []" if "en entry = None \<or> en entry = Some []"
    using that by (auto simp: chooseSense_def)
  ultimately show ?thesis
    by (auto simp: displayText_def createSpan_def)
qed

theorem chooseSense_empty_fallback_witness:
  "chooseSense \<lparr>en = None, py = [], tag = [], pos = None\<rparr> = [] \<and>
   displayText [0x4F60, 0x597D] \<lparr>en = None, py = [], tag = [], pos = None\<rparr> = [0x4F60, 0x597D] \<and>
   chooseSense \<lparr>en = Some [], py = [], tag = [], pos = None\<rparr> = [] \<and>
   displayText [0x4F60, 0x597D] \<lparr>en = Some [[]], py = [], tag = [], pos = None\<rparr> \<noteq> [] \<and>
   displayText [0x4F60, 0x597D]
      \<lparr>en = Some [js ''hello''], py = js ''ni3 hao3'', tag = js ''common'', pos = None\<rparr> \<noteq> []"
proof -
  have tok: "Token [0x4F60, 0x597D]
         \<lparr>en = Some [js ''hello''], py = js ''ni3 hao3'', tag = js ''common'', pos = None\<rparr>
       \<in> set (segmentChinese inlineDict 2 [0x4F60, 0x597D])"
    by (simp add: segmentChinese_def segLoop_eval inlineDict_def isCJK_def slice_def)
  show ?thesis
    using chooseSense_empty_fallback
            [of "\<lparr>en = None, py = [], tag = [], pos = None\<rparr>" "[0x4F60, 0x597D]" inlineDict 2
                "[0x4F60, 0x597D]"]
          chooseSense_empty_fallback
            [of "\<lparr>en = Some [], py = [], tag = [], pos = None\<rparr>" "[0x4F60, 0x597D]" inlineDict 2
                "[0x4F60, 0x597D]"]
          chooseSense_empty_fallback
            [of "\<lparr>en = Some [[]], py = [], tag = [], pos = None\<rparr>" "[0x4F60, 0x597D]" inlineDict 2
                "[0x4F60, 0x597D]"]
          tok
    by simp
qed

section \<open>The worked example of the specification\<close>

definition helloEntry :: entry where
  "helloEntry = \<lparr>en = Some [js ''hello''], py = js ''ni3 hao3'', tag = js ''common'', pos = None\<rparr>"

definition studyEntry :: entry where
  "studyEntry =
     \<lparr>en = Some [js ''study'', js ''learn''], py = js ''xue2 xi2'', tag = js ''common'', pos = None\<rparr>"

definition exampleDict :: dict where
  "exampleDict = map_of [([0x4F60, 0x597D], helloEntry), ([0x5B66, 0x4E60], studyEntry)]"

text \<open>
  C5. With the dictionary of two headwords and \<open>MAX_WORD_LEN = 2\<close>, the run of four
  characters is segmented into the two tokens; the display sense of the second is
  \<open>study\<close>, the first of two senses of equal length; with both tokens replaced the text
  reads \<open>hello study\<close>, and reverting gives the run back. With ratio 1 and \<open>onlyNouns\<close>
  off, \<open>replaceInNode\<close> produces this rendering when the random draws hit both tokens.
\<close>

theorem example_hello_study:
  "segmentChinese exampleDict 2 [0x4F60, 0x597D, 0x5B66, 0x4E60]
     = [Token [0x4F60, 0x597D] helloEntry, Token [0x5B66, 0x4E60] studyEntry] \<and>
   chooseSense helloEntry = js ''hello'' \<and>
   chooseSense studyEntry = js ''study'' \<and>
   textOf (render (segmentChinese exampleDict 2 [0x4F60, 0x597D, 0x5B66, 0x4E60]) {0, 1})
     = js ''hello study'' \<and>
   textOf (revertAll
       (render (segmentChinese exampleDict 2 [0x4F60, 0x597D, 0x5B66, 0x4E60]) {0, 1}))
     = [0x4F60, 0x597D, 0x5B66, 0x4E60] \<and>
   fst (replaceInNode toLowerCase (DEFAULT_SETTINGS\<lparr>ratio := 1, onlyNouns := False\<rparr>) exampleDict 2
          (\<lambda>j. if j = 0 then 0 else 1 / 2) \<lparr>nodes = 0, tokens = 0, replaced = 0\<rparr>
          [0x4F60, 0x597D, 0x5B66, 0x4E60])
     = render (segmentChinese exampleDict 2 [0x4F60, 0x597D, 0x5B66, 0x4E60]) {0, 1}"
proof -
  have seg: "segmentChinese exampleDict 2 [0x4F60, 0x597D, 0x5B66, 0x4E60]
     = [Token [0x4F60, 0x597D] helloEntry, Token [0x5B66, 0x4E60] studyEntry]"
    by (simp add: segmentChinese_def segLoop_eval isCJK_def slice_def exampleDict_def)
  have s1: "chooseSense helloEntry = js ''hello''"
    by (simp add: chooseSense_def helloEntry_def)
  have s2: "chooseSense studyEntry = js ''study''"
    by (simp add: chooseSense_def studyEntry_def js_def)
  have upt2: "[0..<2] = [0, 1]" by (simp add: upt_rec)
  have r: "textOf (render [Token [0x4F60, 0x597D] helloEntry, Token [0x5B66, 0x4E60] studyEntry]
             {0, 1}) = js ''hello study''"
    by (simp add: textOf_def render_def renderSeg_def createSpan_def displayText_def s1 s2
          leading_def trailing_def prevKind_def nextKind_def nextIsReplaced_def upt2 js_def)
  have v: "textOf (revertAll
       (render [Token [0x4F60, 0x597D] helloEntry, Token [0x5B66, 0x4E60] studyEntry] {0, 1}))
     = [0x4F60, 0x597D, 0x5B66, 0x4E60]"
    by (simp add: textOf_revertAll_render)
  have el: "eligible toLowerCase (DEFAULT_SETTINGS\<lparr>ratio := 1, onlyNouns := False\<rparr>)
              [Token [0x4F60, 0x597D] helloEntry, Token [0x5B66, 0x4E60] studyEntry] = [0, 1]"
    by (simp add: eligible_def upt2 tokenAllowed_def s1 s2 DEFAULT_SETTINGS_def js_def
          isWhiteSpace_def)
  have sm: "sampleIndices (Suc (Suc 0)) 1 (\<lambda>j. if j = 0 then 0 else 1 / 2) = [0, Suc 0]"
    by (simp add: sampleIndices_def sampleLoop.simps setAdd_def roundToDouble_eval)
  have rs: "replaceSetOf [0, Suc 0] [0, Suc 0] = {0, Suc 0}"
    by (simp add: replaceSetOf_def List.map_filter_def)
  have "fst (replaceInNode toLowerCase (DEFAULT_SETTINGS\<lparr>ratio := 1, onlyNouns := False\<rparr>) exampleDict 2
          (\<lambda>j. if j = 0 then 0 else 1 / 2) \<lparr>nodes = 0, tokens = 0, replaced = 0\<rparr>
          [0x4F60, 0x597D, 0x5B66, 0x4E60])
     = render [Token [0x4F60, 0x597D] helloEntry, Token [0x5B66, 0x4E60] studyEntry] {0, 1}"
    by (simp add: replaceInNode_def Let_def seg el sm rs)
  with seg s1 s2 r v show ?thesis by simp
qed

section \<open>Ratio 0\<close>

lemma isSpan_renderSeg:
  "isSpan (renderSeg segments replaceSet i) \<longleftrightarrow> isToken (segments ! i) \<and> i \<in> replaceSet"
  by (cases "segments ! i") (simp_all add: renderSeg_def)

lemma count_spans:
  "length (filter isSpan (render segments replaceSet))
     = card {i. i < length segments \<and> isToken (segments ! i) \<and> i \<in> replaceSet}"
proof -
  have "{i. i < length (render segments replaceSet) \<and> isSpan (render segments replaceSet ! i)}
          = {i. i < length segments \<and> isToken (segments ! i) \<and> i \<in> replaceSet}"
    by (auto simp: length_render render_nth isSpan_renderSeg)
  then show ?thesis by (simp add: length_filter_conv_card)
qed

lemma eligible_token:
  "k \<in> set (eligible toLowerCase cfg segments) \<Longrightarrow> k < length segments \<and> isToken (segments ! k)"
  by (cases "segments ! k") (auto simp: eligible_def)

lemma sampleIndices_zero:
  assumes "\<forall>j. isDouble (rand j) \<and> 0 \<le> rand j \<and> rand j < 1" and "1 \<le> n"
  shows "\<exists>r<n. sampleIndices n 0 rand = [r]"
proof -
  have "int (length (sampleIndices n 0 rand)) \<le> max 1 \<lfloor>jsMul (real n) 0\<rfloor>"
    unfolding sampleIndices_def by (rule sampleLoop_length_le) simp
  then have "length (sampleIndices n 0 rand) \<le> 1"
    by (simp add: jsMul_def roundToDouble_def)
  with sampleIndices_nonempty [OF assms(2), of 0 rand]
  have "length (sampleIndices n 0 rand) = 1" by linarith
  then obtain r where r: "sampleIndices n 0 rand = [r]"
    by (cases "sampleIndices n 0 rand") auto
  have "\<forall>x\<in>set (sampleIndices n 0 rand). x < n"
    unfolding sampleIndices_def by (rule sampleLoop_range [OF assms(1)]) simp
  with r show ?thesis by simp
qed

text \<open>
  C1, as the code has it. With ratio 0 (and \<open>Math.random\<close> returning doubles in
  \<open>[0, 1)\<close>) the sampling target is \<open>max(1, floor(k * 0)) = 1\<close>:
  a run with at least one eligible token gets exactly one span, and the count of
  replacements grows by one; only a run without an eligible token is left as it is.
\<close>

theorem ratio_zero_replaces_one:
  assumes "ratio cfg = 0" and "\<forall>j. isDouble (rand j) \<and> 0 \<le> rand j \<and> rand j < 1"
  shows "(eligible toLowerCase cfg (segmentChinese DICT maxWordLen str) = [] \<longrightarrow>
            replaceInNode toLowerCase cfg DICT maxWordLen rand st str = ([TextNode str], st)) \<and>
         (eligible toLowerCase cfg (segmentChinese DICT maxWordLen str) \<noteq> [] \<longrightarrow>
            length (filter isSpan (fst (replaceInNode toLowerCase cfg DICT maxWordLen rand st str))) = 1 \<and>
            replaced (snd (replaceInNode toLowerCase cfg DICT maxWordLen rand st str)) = replaced st + 1)"
proof (intro conjI impI)
  assume "eligible toLowerCase cfg (segmentChinese DICT maxWordLen str) = []"
  then show "replaceInNode toLowerCase cfg DICT maxWordLen rand st str = ([TextNode str], st)"
    by (simp add: replaceInNode_def)
next
  let ?segs = "segmentChinese DICT maxWordLen str"
  let ?toks = "eligible toLowerCase cfg ?segs"
  assume ne: "?toks \<noteq> []"
  then have "1 \<le> length ?toks" by (cases ?toks) simp_all
  from sampleIndices_zero [OF assms(2) this] obtain r where
    r: "r < length ?toks" "sampleIndices (length ?toks) 0 rand = [r]" by blast
  have rs: "replaceSetOf ?toks [r] = {?toks ! r}"
    using r(1) by (simp add: replaceSetOf_def List.map_filter_def)
  have unf: "replaceInNode toLowerCase cfg DICT maxWordLen rand st str
      = (render ?segs {?toks ! r},
         st\<lparr>tokens := tokens st + length ?toks, replaced := replaced st + card {?toks ! r}\<rparr>)"
    using ne r(2) rs assms(1) by (simp add: replaceInNode_def Let_def)
  have "?toks ! r \<in> set ?toks" using r(1) by simp
  from eligible_token [OF this]
  have "{i. i < length ?segs \<and> isToken (?segs ! i) \<and> i \<in> {?toks ! r}} = {?toks ! r}"
    by auto
  then have "length (filter isSpan (render ?segs {?toks ! r})) = 1"
    by (simp add: count_spans)
  with unf show "length (filter isSpan (fst (replaceInNode toLowerCase cfg DICT maxWordLen rand st str))) = 1"
    by simp
  from unf show "replaced (snd (replaceInNode toLowerCase cfg DICT maxWordLen rand st str)) = replaced st + 1"
    by simp
qed

lemma abc_nihao_eval:
  "replaceInNode asciiLowerCase (DEFAULT_SETTINGS\<lparr>ratio := 0\<rparr>) inlineDict 2 (\<lambda>j. 0)
      \<lparr>nodes = 0, tokens = 0, replaced = 0\<rparr> (js ''abc'' @ [0x4F60, 0x597D])
    = ([TextNode (js ''a''), TextNode (js ''b''), TextNode (js ''c''),
        SpanNode \<lparr>className = js ''mixen-word'', textContent = js '' hello'',
                  data_original = [0x4F60, 0x597D],
                  data_tip = js ''hello '' @ [0x2022, 32, 0x4F60, 0x597D]\<rparr>],
       \<lparr>nodes = 0, tokens = 1, replaced = 1\<rparr>)"
proof -
  let ?e = "\<lparr>en = Some [js ''hello''], py = js ''ni3 hao3'', tag = js ''common'', pos = None\<rparr>"
  have seg: "segmentChinese inlineDict 2 (js ''abc'' @ [0x4F60, 0x597D])
     = [Literal (js ''a''), Literal (js ''b''), Literal (js ''c''), Token [0x4F60, 0x597D] ?e]"
    by (simp add: segmentChinese_def segLoop_eval isCJK_def slice_def inlineDict_def js_def)
  have s1: "chooseSense ?e = js ''hello''"
    by (simp add: chooseSense_def)
  have upt4: "[0..<4] = [0, 1, 2, 3]" by (simp add: upt_rec)
  have ta: "tokenAllowed asciiLowerCase (DEFAULT_SETTINGS\<lparr>ratio := 0\<rparr>) ?e"
    by (simp add: tokenAllowed_def s1, simp add: js_def isWhiteSpace_def DEFAULT_SETTINGS_def isNounLike_def
          trim_def asciiLowerCase_def startsWith_def endsWith_def NOUN_SUFFIX_def NOUN_HEADS_def)
  have el: "eligible asciiLowerCase (DEFAULT_SETTINGS\<lparr>ratio := 0\<rparr>)
              [Literal (js ''a''), Literal (js ''b''), Literal (js ''c''), Token [0x4F60, 0x597D] ?e]
            = [3]"
    by (simp add: eligible_def upt4 ta)
  have sm: "sampleIndices (Suc 0) 0 (\<lambda>j. 0) = [0]"
    by (simp add: sampleIndices_def sampleLoop.simps setAdd_def jsMul_def roundToDouble_def)
  have rs: "replaceSetOf [3] [0] = {3}"
    by (simp add: replaceSetOf_def List.map_filter_def)
  have r: "render [Literal (js ''a''), Literal (js ''b''), Literal (js ''c''),
                   Token [0x4F60, 0x597D] ?e] {3}
        = [TextNode (js ''a''), TextNode (js ''b''), TextNode (js ''c''),
           SpanNode \<lparr>className = js ''mixen-word'', textContent = js '' hello'',
                  data_original = [0x4F60, 0x597D],
                  data_tip = js ''hello '' @ [0x2022, 32, 0x4F60, 0x597D]\<rparr>]"
    by (simp add: render_def renderSeg_def createSpan_def displayText_def s1 spanClass_def
          leading_def trailing_def prevKind_def nextKind_def nextIsReplaced_def upt4,
        simp add: js_def charKind_def)
  show ?thesis
    by (simp add: replaceInNode_def Let_def seg el sm rs r)
qed

theorem ratio_zero_counterexample:
  "textOf (fst (replaceInNode asciiLowerCase (DEFAULT_SETTINGS\<lparr>ratio := 0\<rparr>) inlineDict 2 (\<lambda>j. 0)
      \<lparr>nodes = 0, tokens = 0, replaced = 0\<rparr> (js ''abc'' @ [0x4F60, 0x597D])))
     = js ''abc hello'' \<and>
   textOf (fst (replaceInNode asciiLowerCase (DEFAULT_SETTINGS\<lparr>ratio := 0\<rparr>) inlineDict 2 (\<lambda>j. 0)
      \<lparr>nodes = 0, tokens = 0, replaced = 0\<rparr> (js ''abc'' @ [0x4F60, 0x597D])))
     \<noteq> js ''abc'' @ [0x4F60, 0x597D] \<and>
   length (filter isSpan (fst (replaceInNode asciiLowerCase (DEFAULT_SETTINGS\<lparr>ratio := 0\<rparr>) inlineDict 2
      (\<lambda>j. 0) \<lparr>nodes = 0, tokens = 0, replaced = 0\<rparr> (js ''abc'' @ [0x4F60, 0x597D])))) = 1"
  by (simp add: abc_nihao_eval textOf_def) (simp add: js_def)

theorem ratio_zero_replaces_one_witness:
  "ratio (DEFAULT_SETTINGS\<lparr>ratio := 0\<rparr>) = 0 \<and>
   eligible asciiLowerCase (DEFAULT_SETTINGS\<lparr>ratio := 0\<rparr>)
     (segmentChinese inlineDict 2 (js ''abc'' @ [0x4F60, 0x597D])) = [3] \<and>
   length (filter isSpan (fst (replaceInNode asciiLowerCase (DEFAULT_SETTINGS\<lparr>ratio := 0\<rparr>) inlineDict 2
      (\<lambda>j. 0) \<lparr>nodes = 0, tokens = 0, replaced = 0\<rparr> (js ''abc'' @ [0x4F60, 0x597D])))) = 1"
proof -
  let ?e = "\<lparr>en = Some [js ''hello''], py = js ''ni3 hao3'', tag = js ''common'', pos = None\<rparr>"
  have seg: "segmentChinese inlineDict 2 (js ''abc'' @ [0x4F60, 0x597D])
     = [Literal (js ''a''), Literal (js ''b''), Literal (js ''c''), Token [0x4F60, 0x597D] ?e]"
    by (simp add: segmentChinese_def segLoop_eval isCJK_def slice_def inlineDict_def js_def)
  have upt4: "[0..<4] = [0, 1, 2, 3]" by (simp add: upt_rec)
  have ta: "tokenAllowed asciiLowerCase (DEFAULT_SETTINGS\<lparr>ratio := 0\<rparr>) ?e"
    by (simp add: tokenAllowed_def chooseSense_def, simp add: js_def isWhiteSpace_def DEFAULT_SETTINGS_def isNounLike_def
          trim_def asciiLowerCase_def startsWith_def endsWith_def NOUN_SUFFIX_def NOUN_HEADS_def)
  have el: "eligible asciiLowerCase (DEFAULT_SETTINGS\<lparr>ratio := 0\<rparr>)
              (segmentChinese inlineDict 2 (js ''abc'' @ [0x4F60, 0x597D])) = [3]"
    by (simp add: seg eligible_def upt4 ta)
  have r0: "ratio (DEFAULT_SETTINGS\<lparr>ratio := 0\<rparr>) = 0" by simp
  have rnd: "\<forall>j::nat. isDouble 0 \<and> 0 \<le> (0::real) \<and> (0::real) < 1"
    by (simp add: isDouble_def roundToDouble_def)
  from ratio_zero_replaces_one [OF r0 rnd, where toLowerCase = asciiLowerCase
         and DICT = inlineDict and maxWordLen = 2 and str = "js ''abc'' @ [0x4F60, 0x597D]"
         and st = "\<lparr>nodes = 0, tokens = 0, replaced = 0\<rparr>"] el r0
  show ?thesis by simp
qed

section \<open>Spacing\<close>

text \<open>
  The rendered text with a mark on every code unit: \<open>True\<close> for a space that
  \<open>createSpan\<close> puts before or after the display text, \<open>False\<close> for everything else.
  Dropping the marks gives the text of \<open>render\<close> (lemma \<open>marked_text\<close>).
\<close>

definition markedSeg :: "segment list \<Rightarrow> nat set \<Rightarrow> nat \<Rightarrow> (jschar \<times> bool) list" where
  "markedSeg segments replaceSet i =
     (case segments ! i of
        Token w e \<Rightarrow>
          if i \<in> replaceSet
          then (if leading segments replaceSet i then [(32, True)] else [])
               @ map (\<lambda>c. (c, False)) (displayText w e)
               @ (if trailing segments replaceSet i then [(32, True)] else [])
          else map (\<lambda>c. (c, False)) w
      | Literal s \<Rightarrow> map (\<lambda>c. (c, False)) s)"

definition marked :: "segment list \<Rightarrow> nat set \<Rightarrow> (jschar \<times> bool) list" where
  "marked segments replaceSet =
     concat (map (markedSeg segments replaceSet) [0..<length segments])"

text \<open>
  The specification's classification of the element at index \<open>j\<close>: a replaced token is
  LATIN, a token left in place is CJK, a literal has the kind of its character.
\<close>

definition isReplacement :: "segment list \<Rightarrow> nat set \<Rightarrow> nat \<Rightarrow> bool" where
  "isReplacement segments replaceSet j \<longleftrightarrow> isToken (segments ! j) \<and> j \<in> replaceSet"

definition elementKind :: "segment list \<Rightarrow> nat set \<Rightarrow> nat \<Rightarrow> CharKind" where
  "elementKind segments replaceSet j =
     (case segments ! j of
        Token w e \<Rightarrow> if j \<in> replaceSet then LATIN else CJK
      | Literal s \<Rightarrow> charKind s)"

fun noDouble :: "bool list \<Rightarrow> bool" where
  "noDouble (a # b # bs) \<longleftrightarrow> \<not> (a \<and> b) \<and> noDouble (b # bs)"
| "noDouble bs \<longleftrightarrow> True"

lemma noDouble_append:
  "noDouble (xs @ ys) \<longleftrightarrow>
     noDouble xs \<and> noDouble ys \<and> (xs \<noteq> [] \<and> ys \<noteq> [] \<longrightarrow> \<not> (last xs \<and> hd ys))"
proof (induction xs rule: induct_list012)
  case 1
  show ?case by simp
next
  case (2 x)
  show ?case by (cases ys) auto
next
  case (3 x y zs)
  then show ?case by auto
qed

lemma noDouble_nth:
  "noDouble bs \<Longrightarrow> Suc j < length bs \<Longrightarrow> \<not> (bs ! j \<and> bs ! Suc j)"
proof (induction bs arbitrary: j rule: noDouble.induct)
  case (1 a b bs)
  then show ?case by (cases j) auto
qed simp_all

lemma noDouble_False: "noDouble (map (\<lambda>c. False) xs)"
  by (induction xs rule: induct_list012) simp_all

lemma noDouble_concat:
  "\<forall>b\<in>set bss. b \<noteq> [] \<and> noDouble b \<Longrightarrow>
   \<forall>i. Suc i < length bss \<longrightarrow> \<not> (last (bss ! i) \<and> hd (bss ! Suc i)) \<Longrightarrow>
   noDouble (concat bss)"
proof (induction bss)
  case Nil
  then show ?case by simp
next
  case (Cons b bss)
  have tl: "\<forall>i. Suc i < length bss \<longrightarrow> \<not> (last (bss ! i) \<and> hd (bss ! Suc i))"
  proof (intro allI impI)
    fix i assume "Suc i < length bss"
    with Cons.prems(2) [rule_format, of "Suc i"] show "\<not> (last (bss ! i) \<and> hd (bss ! Suc i))"
      by simp
  qed
  from Cons.IH [OF _ tl] Cons.prems(1) have ih: "noDouble (concat bss)" by simp
  have join: "\<not> (last b \<and> hd (concat bss))" if "concat bss \<noteq> []"
  proof (cases bss)
    case Nil
    with that show ?thesis by simp
  next
    case (Cons c cs)
    with Cons.prems(1) have "c \<noteq> []" by simp
    with Cons have "hd (concat bss) = hd c" by simp
    moreover from Cons.prems(2) [rule_format, of 0] Cons have "\<not> (last b \<and> hd c)" by simp
    ultimately show ?thesis by simp
  qed
  from Cons.prems(1) have "noDouble b" by simp
  with ih join show ?case by (auto simp: noDouble_append)
qed

text \<open>The marks of one segment's piece of the output.\<close>

lemma marks_nonempty:
  assumes "segText (segments ! i) \<noteq> []"
  shows "map snd (markedSeg segments replaceSet i) \<noteq> []"
  using assms
  by (cases "segments ! i") (auto simp: markedSeg_def displayText_def)

lemma marks_noDouble:
  assumes "segText (segments ! i) \<noteq> []"
  shows "noDouble (map snd (markedSeg segments replaceSet i))"
proof (cases "segments ! i")
  case (Literal s)
  then show ?thesis by (simp add: markedSeg_def comp_def noDouble_False)
next
  case (Token w e)
  with assms have d: "displayText w e \<noteq> []" by (simp add: displayText_def)
  then have "map (\<lambda>c. False) (displayText w e) \<noteq> []" by simp
  moreover have "hd (map (\<lambda>c. False) (displayText w e)) = False"
    and "last (map (\<lambda>c. False) (displayText w e)) = False"
    using d by (simp_all add: hd_map last_map)
  ultimately show ?thesis using Token
    by (auto simp: markedSeg_def comp_def noDouble_append noDouble_False)
qed

lemma marks_last:
  assumes "segText (segments ! i) \<noteq> []" and "last (map snd (markedSeg segments replaceSet i))"
  shows "isToken (segments ! i) \<and> i \<in> replaceSet \<and> trailing segments replaceSet i"
proof (cases "segments ! i")
  case (Literal s)
  with assms show ?thesis by (simp add: markedSeg_def comp_def last_map)
next
  case (Token w e)
  with assms(1) have d: "displayText w e \<noteq> []" by (simp add: displayText_def)
  from assms Token d show ?thesis
    by (auto simp: markedSeg_def comp_def last_map split: if_splits)
qed

lemma marks_hd:
  assumes "segText (segments ! i) \<noteq> []" and "hd (map snd (markedSeg segments replaceSet i))"
  shows "isToken (segments ! i) \<and> i \<in> replaceSet \<and> leading segments replaceSet i"
proof (cases "segments ! i")
  case (Literal s)
  with assms show ?thesis by (simp add: markedSeg_def comp_def hd_map)
next
  case (Token w e)
  with assms(1) have d: "displayText w e \<noteq> []" by (simp add: displayText_def)
  from assms Token d show ?thesis
    by (auto simp: markedSeg_def comp_def hd_map hd_append split: if_splits)
qed

lemma trailing_next_unreplaced:
  assumes "trailing segments replaceSet i" and "Suc i < length segments"
  shows "\<not> (isToken (segments ! Suc i) \<and> Suc i \<in> replaceSet)"
  using assms
  by (cases "segments ! Suc i") (auto simp: trailing_def nextIsReplaced_def)

lemma marked_noDouble:
  assumes "\<forall>s\<in>set segments. segText s \<noteq> []"
  shows "noDouble (map snd (marked segments replaceSet))"
proof -
  let ?bss = "map (\<lambda>i. map snd (markedSeg segments replaceSet i)) [0..<length segments]"
  have ne: "segText (segments ! i) \<noteq> []" if "i < length segments" for i
    using assms that by simp
  have "\<forall>b\<in>set ?bss. b \<noteq> [] \<and> noDouble b"
  proof
    fix b assume "b \<in> set ?bss"
    then obtain i where i: "i < length segments"
      and b: "b = map snd (markedSeg segments replaceSet i)" by auto
    from marks_nonempty [OF ne [OF i]] marks_noDouble [OF ne [OF i]] b
    show "b \<noteq> [] \<and> noDouble b" by blast
  qed
  moreover have "\<forall>i. Suc i < length ?bss \<longrightarrow> \<not> (last (?bss ! i) \<and> hd (?bss ! Suc i))"
  proof (intro allI impI notI)
    fix i assume i: "Suc i < length ?bss" and both: "last (?bss ! i) \<and> hd (?bss ! Suc i)"
    from i have lt: "i < length segments" "Suc i < length segments" by simp_all
    from both lt have "last (map snd (markedSeg segments replaceSet i))"
      and "hd (map snd (markedSeg segments replaceSet (Suc i)))" by simp_all
    from marks_last [OF ne [OF lt(1)] this(1)] marks_hd [OF ne [OF lt(2)] this(2)]
         trailing_next_unreplaced [OF _ lt(2), of replaceSet]
    show False by blast
  qed
  ultimately have "noDouble (concat ?bss)" by (rule noDouble_concat)
  moreover have "map snd (marked segments replaceSet) = concat ?bss"
    by (simp add: marked_def map_concat comp_def)
  ultimately show ?thesis by simp
qed

lemma marked_text:
  "map fst (marked segments replaceSet) = textOf (render segments replaceSet)"
proof -
  have "map fst (markedSeg segments replaceSet i) = nodeText (renderSeg segments replaceSet i)"
    for i
    by (cases "segments ! i") (simp_all add: markedSeg_def renderSeg_def createSpan_def comp_def)
  then show ?thesis
    by (simp add: marked_def textOf_def render_def map_concat comp_def)
qed

lemma leading_spec:
  "leading segments replaceSet i \<longleftrightarrow>
     0 < i \<and> elementKind segments replaceSet (i - 1) \<in> {CJK, LATIN}"
  by (cases "segments ! (i - 1)") (auto simp: leading_def prevKind_def elementKind_def)

lemma trailing_spec:
  "trailing segments replaceSet i \<longleftrightarrow>
     i + 1 < length segments \<and> elementKind segments replaceSet (i + 1) \<in> {CJK, LATIN}
       \<and> \<not> isReplacement segments replaceSet (i + 1)"
  by (cases "segments ! (i + 1)")
     (auto simp: trailing_def nextKind_def nextIsReplaced_def elementKind_def isReplacement_def)

lemma marked_space: "p \<in> set (marked segments replaceSet) \<Longrightarrow> snd p \<Longrightarrow> fst p = 32"
proof -
  assume p: "p \<in> set (marked segments replaceSet)" and m: "snd p"
  from p obtain i where "p \<in> set (markedSeg segments replaceSet i)"
    by (auto simp: marked_def)
  with m show ?thesis
    by (cases "segments ! i") (auto simp: markedSeg_def split: if_splits)
qed

text \<open>
  C6. For segments with non-empty text (as the segmenter produces them): the text of the
  span rendered for a replaced token is the display text, preceded by one space exactly
  when there is a preceding element and it is CJK or LATIN, and followed by one space
  exactly when there is a following element, it is CJK or LATIN and it is not itself a
  replacement. Of the spaces the renderer inserts no two are adjacent in the output.
\<close>

theorem spacing_rule:
  assumes "\<forall>s\<in>set segments. segText s \<noteq> []"
  shows "(\<forall>i w e. i < length segments \<and> segments ! i = Token w e \<and> i \<in> replaceSet \<longrightarrow>
            nodeText (render segments replaceSet ! i)
              = (if 0 < i \<and> elementKind segments replaceSet (i - 1) \<in> {CJK, LATIN}
                 then [32] else [])
                @ displayText w e
                @ (if i + 1 < length segments
                      \<and> elementKind segments replaceSet (i + 1) \<in> {CJK, LATIN}
                      \<and> \<not> isReplacement segments replaceSet (i + 1)
                   then [32] else [])) \<and>
         map fst (marked segments replaceSet) = textOf (render segments replaceSet) \<and>
         (\<forall>p\<in>set (marked segments replaceSet). snd p \<longrightarrow> fst p = 32) \<and>
         (\<forall>j. Suc j < length (marked segments replaceSet) \<longrightarrow>
            \<not> (snd (marked segments replaceSet ! j) \<and> snd (marked segments replaceSet ! Suc j)))"
proof -
  have a: "nodeText (render segments replaceSet ! i)
              = (if 0 < i \<and> elementKind segments replaceSet (i - 1) \<in> {CJK, LATIN}
                 then [32] else [])
                @ displayText w e
                @ (if i + 1 < length segments
                      \<and> elementKind segments replaceSet (i + 1) \<in> {CJK, LATIN}
                      \<and> \<not> isReplacement segments replaceSet (i + 1)
                   then [32] else [])"
    if "i < length segments" "segments ! i = Token w e" "i \<in> replaceSet" for i w e
  proof -
    have "nodeText (render segments replaceSet ! i)
            = (if leading segments replaceSet i then [32] else []) @ displayText w e
              @ (if trailing segments replaceSet i then [32] else [])"
      using that by (simp add: render_nth renderSeg_def createSpan_def)
    then show ?thesis
      by (simp only: leading_spec trailing_spec)
  qed
  have d: "\<not> (snd (marked segments replaceSet ! j) \<and> snd (marked segments replaceSet ! Suc j))"
    if "Suc j < length (marked segments replaceSet)" for j
  proof -
    from that have "Suc j < length (map snd (marked segments replaceSet))" by simp
    from noDouble_nth [OF marked_noDouble [OF assms] this] that show ?thesis by simp
  qed
  from a d show ?thesis
    using marked_text marked_space by blast
qed

theorem spacing_rule_witness:
  "nodeText (render [Literal (js ''a''),
        Token [0x4F60, 0x597D]
          \<lparr>en = Some [js ''hello''], py = js ''ni3 hao3'', tag = js ''common'', pos = None\<rparr>,
        Token [0x5B66, 0x4E60]
          \<lparr>en = Some [js ''study'', js ''learn''], py = js ''xue2 xi2'', tag = js ''common'',
           pos = None\<rparr>] {1} ! 1) = js '' hello '' \<and>
   textOf (render [Literal (js ''a''),
        Token [0x4F60, 0x597D]
          \<lparr>en = Some [js ''hello''], py = js ''ni3 hao3'', tag = js ''common'', pos = None\<rparr>,
        Token [0x5B66, 0x4E60]
          \<lparr>en = Some [js ''study'', js ''learn''], py = js ''xue2 xi2'', tag = js ''common'',
           pos = None\<rparr>] {1}) = js ''a hello '' @ [0x5B66, 0x4E60]"
proof -
  let ?segs = "[Literal (js ''a''),
        Token [0x4F60, 0x597D]
          \<lparr>en = Some [js ''hello''], py = js ''ni3 hao3'', tag = js ''common'', pos = None\<rparr>,
        Token [0x5B66, 0x4E60]
          \<lparr>en = Some [js ''study'', js ''learn''], py = js ''xue2 xi2'', tag = js ''common'',
           pos = None\<rparr>]"
  have ne: "\<forall>s\<in>set ?segs. segText s \<noteq> []" by (simp add: js_def)
  have upt3: "[0..<3] = [0, 1, 2]" by (simp add: upt_rec)
  have k: "elementKind ?segs {1} (1 - 1) = LATIN" "elementKind ?segs {1} (1 + 1) = CJK"
    "\<not> isReplacement ?segs {1} (1 + 1)"
    by (simp_all add: elementKind_def isReplacement_def charKind_def js_def)
  have d: "displayText [0x4F60, 0x597D]
          \<lparr>en = Some [js ''hello''], py = js ''ni3 hao3'', tag = js ''common'', pos = None\<rparr>
        = js ''hello''"
    by (simp add: displayText_def chooseSense_def js_def)
  from spacing_rule [OF ne, of "{1}"]
  have "nodeText (render ?segs {1} ! 1) = js '' hello ''"
    using k d by (simp add: js_def)
  moreover have "textOf (render ?segs {1}) = js ''a hello '' @ [0x5B66, 0x4E60]"
    by (simp add: textOf_def render_def renderSeg_def createSpan_def d upt3
          leading_def trailing_def prevKind_def nextKind_def nextIsReplaced_def,
        simp add: js_def charKind_def)
  ultimately show ?thesis by simp
qed

section \<open>The dictionary store: ensureIndex and ensureGroupLoaded\<close>

text \<open>
  A group id \<open>`g${idx}`\<close> is represented by the number \<open>idx\<close>. The answers of the
  outside world during one call are collected in an environment: what \<open>extAlive()\<close>
  returns at the start of \<open>ensureGroupLoaded\<close> and inside \<open>ensureIndex\<close>, and the
  outcome of fetching and parsing the index and a chunk file (\<open>FetchFailed\<close> covers a
  rejected fetch, a response that is not ok and unparsable JSON). A call is modelled as
  one atomic step.
\<close>

record groupMeta =
  metaFile :: jsstring
  count :: nat
  maxLen :: nat

record indexMeta =
  groupSize :: nat
  groups :: "nat \<rightharpoonup> groupMeta"

record chunk =
  chunkMaxLen :: nat
  entries :: "(jsstring \<times> entry) list"

datatype 'a fetched = FetchFailed | Fetched 'a

record store =
  DICT :: dict
  MAX_WORD_LEN :: nat
  loadedGroups :: "nat set"
  indexMetaOf :: "indexMeta option"

record env =
  extAlive :: bool
  extAliveIndex :: bool
  indexFetch :: "indexMeta fetched"
  chunkFetch :: "jsstring \<Rightarrow> chunk fetched"

text \<open>How a call ends: it returns, or \<open>indexMeta.groups\<close> is read while \<open>indexMeta\<close> is null.\<close>

datatype completion = Returned | TypeError

definition groupIdForChar :: "jschar \<Rightarrow> nat option" where
  "groupIdForChar code =
     (if code < 0x4E00 \<or> code > 0x9FFF then None else Some ((code - 0x4E00) div 512))"

definition ensureIndex :: "env \<Rightarrow> store \<Rightarrow> store" where
  "ensureIndex ev st =
     (if indexMetaOf st \<noteq> None then st
      else if \<not> extAliveIndex ev then st
      else (case indexFetch ev of
              Fetched idx \<Rightarrow> st\<lparr>indexMetaOf := Some idx\<rparr>
            | FetchFailed \<Rightarrow> st\<lparr>indexMetaOf := Some \<lparr>groupSize = 512, groups = Map.empty\<rparr>\<rparr>))"

definition mergeChunk :: "chunk \<Rightarrow> store \<Rightarrow> store" where
  "mergeChunk ck st =
     st\<lparr>MAX_WORD_LEN :=
          (if chunkMaxLen ck \<noteq> 0 \<and> chunkMaxLen ck > MAX_WORD_LEN st then chunkMaxLen ck
           else MAX_WORD_LEN st),
        DICT := fold (\<lambda>(w, v) d. d(w \<mapsto> v)) (entries ck) (DICT st)\<rparr>"

definition addLoaded :: "nat \<Rightarrow> store \<Rightarrow> store" where
  "addLoaded gid st = st\<lparr>loadedGroups := insert gid (loadedGroups st)\<rparr>"

definition ensureGroupLoaded :: "env \<Rightarrow> jschar \<Rightarrow> store \<Rightarrow> completion \<times> store" where
  "ensureGroupLoaded ev ch st =
     (if \<not> extAlive ev then (Returned, st)
      else case groupIdForChar ch of
        None \<Rightarrow> (Returned, st)
      | Some gid \<Rightarrow>
          if gid \<in> loadedGroups st then (Returned, st)
          else case indexMetaOf (ensureIndex ev st) of
            None \<Rightarrow> (TypeError, ensureIndex ev st)
          | Some idx \<Rightarrow>
              (case groups idx gid of
                 None \<Rightarrow> (Returned, addLoaded gid (ensureIndex ev st))
               | Some meta \<Rightarrow>
                   (case chunkFetch ev (metaFile meta) of
                      Fetched ck \<Rightarrow> (Returned, addLoaded gid (mergeChunk ck (ensureIndex ev st)))
                    | FetchFailed \<Rightarrow> (Returned, addLoaded gid (ensureIndex ev st)))))"

text \<open>A sequence of calls, each with its own environment; a rejected call does not stop the next.\<close>

fun runCalls :: "(env \<times> jschar) list \<Rightarrow> store \<Rightarrow> store" where
  "runCalls [] st = st"
| "runCalls ((ev, ch) # cs) st = runCalls cs (snd (ensureGroupLoaded ev ch st))"

lemma loadedGroups_ensureIndex: "loadedGroups (ensureIndex ev st) = loadedGroups st"
  by (simp add: ensureIndex_def split: fetched.splits)

lemma loadedGroups_mergeChunk: "loadedGroups (mergeChunk ck st) = loadedGroups st"
  by (simp add: mergeChunk_def)

lemma ensureGroupLoaded_mono:
  "loadedGroups st \<subseteq> loadedGroups (snd (ensureGroupLoaded ev ch st))"
  by (auto simp: ensureGroupLoaded_def addLoaded_def loadedGroups_ensureIndex
        loadedGroups_mergeChunk split: option.splits fetched.splits)

lemma runCalls_mono: "loadedGroups st \<subseteq> loadedGroups (runCalls cs st)"
proof (induction cs arbitrary: st)
  case Nil
  show ?case by simp
next
  case (Cons c cs)
  obtain ev ch where c: "c = (ev, ch)" by (cases c)
  have "loadedGroups st \<subseteq> loadedGroups (snd (ensureGroupLoaded ev ch st))"
    by (rule ensureGroupLoaded_mono)
  also have "\<dots> \<subseteq> loadedGroups (runCalls cs (snd (ensureGroupLoaded ev ch st)))"
    by (rule Cons.IH)
  finally show ?case by (simp add: c)
qed

lemma ensureGroupLoaded_loaded_noop:
  assumes "groupIdForChar ch = Some gid" and "gid \<in> loadedGroups st"
  shows "ensureGroupLoaded ev ch st = (Returned, st)"
  using assms by (simp add: ensureGroupLoaded_def)

lemma ensureGroupLoaded_marks:
  assumes "extAlive ev" and "groupIdForChar ch = Some gid"
    and "fst (ensureGroupLoaded ev ch st) = Returned"
  shows "gid \<in> loadedGroups (snd (ensureGroupLoaded ev ch st))"
  using assms
  by (auto simp: ensureGroupLoaded_def addLoaded_def split: option.splits fetched.splits if_splits)

lemma ensureGroupLoaded_returns:
  assumes "extAliveIndex ev \<or> indexMetaOf st \<noteq> None"
  shows "fst (ensureGroupLoaded ev ch st) = Returned"
  using assms
  by (auto simp: ensureGroupLoaded_def ensureIndex_def split: option.splits fetched.splits)

text \<open>
  C7. Over any sequence of calls the set of loaded groups only grows. A call for a
  character whose group is already in the set changes nothing. A call made with a live
  extension context for a CJK character returns whenever the index is cached or can be
  asked for, and then the group is in the set whatever the index and chunk fetches
  answered: a failed fetch and a group missing from the index mark it as well; a second
  call for the same character then changes nothing.
\<close>

theorem loadedGroups_monotone:
  "loadedGroups st \<subseteq> loadedGroups (runCalls calls st) \<and>
   (groupIdForChar ch = Some gid \<and> gid \<in> loadedGroups st \<longrightarrow>
      ensureGroupLoaded ev ch st = (Returned, st)) \<and>
   (extAlive ev \<and> (extAliveIndex ev \<or> indexMetaOf st \<noteq> None) \<and> groupIdForChar ch = Some gid \<longrightarrow>
      fst (ensureGroupLoaded ev ch st) = Returned \<and>
      gid \<in> loadedGroups (snd (ensureGroupLoaded ev ch st)) \<and>
      ensureGroupLoaded ev' ch (snd (ensureGroupLoaded ev ch st))
        = (Returned, snd (ensureGroupLoaded ev ch st)))"
proof (intro conjI impI)
  show "loadedGroups st \<subseteq> loadedGroups (runCalls calls st)" by (rule runCalls_mono)
next
  assume "groupIdForChar ch = Some gid \<and> gid \<in> loadedGroups st"
  then show "ensureGroupLoaded ev ch st = (Returned, st)"
    by (simp add: ensureGroupLoaded_loaded_noop)
next
  assume a: "extAlive ev \<and> (extAliveIndex ev \<or> indexMetaOf st \<noteq> None) \<and> groupIdForChar ch = Some gid"
  then show r: "fst (ensureGroupLoaded ev ch st) = Returned"
    by (simp add: ensureGroupLoaded_returns)
  from a r show m: "gid \<in> loadedGroups (snd (ensureGroupLoaded ev ch st))"
    by (simp add: ensureGroupLoaded_marks)
  from a m show "ensureGroupLoaded ev' ch (snd (ensureGroupLoaded ev ch st))
        = (Returned, snd (ensureGroupLoaded ev ch st))"
    by (simp add: ensureGroupLoaded_loaded_noop)
qed

definition initialStore :: store where
  "initialStore = \<lparr>DICT = inlineDict, MAX_WORD_LEN = 2, loadedGroups = {}, indexMetaOf = None\<rparr>"

definition offlineEnv :: env where
  "offlineEnv = \<lparr>extAlive = True, extAliveIndex = True, indexFetch = FetchFailed,
     chunkFetch = (\<lambda>f. FetchFailed)\<rparr>"

theorem loadedGroups_monotone_witness:
  "groupIdForChar 0x4F60 = Some 0 \<and>
   loadedGroups (snd (ensureGroupLoaded offlineEnv 0x4F60 initialStore)) = {0} \<and>
   ensureGroupLoaded offlineEnv 0x4F60 (snd (ensureGroupLoaded offlineEnv 0x4F60 initialStore))
     = (Returned, snd (ensureGroupLoaded offlineEnv 0x4F60 initialStore))"
proof -
  have g: "groupIdForChar 0x4F60 = Some 0" by (simp add: groupIdForChar_def)
  have a: "extAlive offlineEnv \<and> (extAliveIndex offlineEnv \<or> indexMetaOf initialStore \<noteq> None)
           \<and> groupIdForChar 0x4F60 = Some 0"
    by (simp add: offlineEnv_def g)
  have l: "loadedGroups (snd (ensureGroupLoaded offlineEnv 0x4F60 initialStore)) = {0}"
    by (simp add: ensureGroupLoaded_def g offlineEnv_def initialStore_def ensureIndex_def
          addLoaded_def)
  from a have "extAliveIndex offlineEnv" by (simp add: offlineEnv_def)
  with loadedGroups_monotone [of initialStore "[]" "0x4F60" 0 offlineEnv offlineEnv] a g l
  show ?thesis by simp
qed

section \<open>URL blacklist patterns\<close>

text \<open>
  The regular expression engine belongs to the host. It is a parameter of the model:
  \<open>newRegExp src\<close> is the object that \<open>new RegExp(src, 'i')\<close> returns, or \<open>None\<close> when
  the constructor throws, and \<open>test re url\<close> is \<open>re.test(url)\<close>.
\<close>

definition escapeRe :: "jsstring \<Rightarrow> jsstring" where
  "escapeRe s =
     concat (map (\<lambda>c. if c \<in> {46, 42, 43, 63, 94, 36, 123, 125, 40, 41, 124, 91, 93, 92}
                        then [92, c] else [c]) s)"

text \<open>\<open>.replace(/\\\*/g, '.*')\<close> and \<open>.replace(/\\\?/g, '.')\<close>, scanning from the left.\<close>

fun replaceStar :: "jsstring \<Rightarrow> jsstring" where
  "replaceStar (a # b # rest) =
     (if a = 92 \<and> b = 42 then 46 # 42 # replaceStar rest else a # replaceStar (b # rest))"
| "replaceStar s = s"

fun replaceQuestion :: "jsstring \<Rightarrow> jsstring" where
  "replaceQuestion (a # b # rest) =
     (if a = 92 \<and> b = 63 then 46 # replaceQuestion rest else a # replaceQuestion (b # rest))"
| "replaceQuestion s = s"

definition regexSource :: "jsstring \<Rightarrow> jsstring" where
  "regexSource raw = [94] @ replaceQuestion (replaceStar (escapeRe raw)) @ [36]"

definition patToRegExp :: "(jsstring \<Rightarrow> 're option) \<Rightarrow> jsstring \<Rightarrow> 're option" where
  "patToRegExp newRegExp pat =
     (if trim pat = [] \<or> startsWith (trim pat) [35] then None
      else newRegExp (regexSource (trim pat)))"

text \<open>
  \<open>compilePatternLists\<close> returns the new value of \<open>blacklistRe\<close>; a \<open>blacklist\<close> that is
  not an array (\<open>None\<close>) counts as empty.
\<close>

definition compilePatternLists :: "(jsstring \<Rightarrow> 're option) \<Rightarrow> settings \<Rightarrow> 're list" where
  "compilePatternLists newRegExp cfg =
     List.map_filter (patToRegExp newRegExp) (case blacklist cfg of Some bl \<Rightarrow> bl | None \<Rightarrow> [])"

fun urlMatchesAny :: "('re \<Rightarrow> jsstring \<Rightarrow> bool) \<Rightarrow> 're list \<Rightarrow> jsstring \<Rightarrow> bool" where
  "urlMatchesAny test [] url = False"
| "urlMatchesAny test (re # reList) url =
     (if test re url then True else urlMatchesAny test reList url)"

definition settingsAllow ::
  "('re \<Rightarrow> jsstring \<Rightarrow> bool) \<Rightarrow> settings \<Rightarrow> 're list \<Rightarrow> jsstring \<Rightarrow> bool" where
  "settingsAllow test cfg blacklistRe href =
     (if \<not> enabled cfg then False
      else if length blacklistRe \<noteq> 0 \<and> urlMatchesAny test blacklistRe href then False
      else True)"

lemma map_filter_drop_None:
  "f p = None \<Longrightarrow> List.map_filter f (xs @ p # ys) = List.map_filter f (xs @ ys)"
  by (simp add: List.map_filter_def)

lemma map_filter_all_None:
  "\<forall>p\<in>set ps. f p = None \<Longrightarrow> List.map_filter f ps = []"
  by (induction ps) (simp_all add: List.map_filter_def)

lemma set_map_filter: "set (List.map_filter f ps) = {r. \<exists>p\<in>set ps. f p = Some r}"
  by (induction ps) (auto simp: List.map_filter_def)

text \<open>
  C8. \<open>patToRegExp\<close> returns nothing exactly for a pattern that is empty after trimming,
  starts with \<open>#\<close>, or is refused by the regular expression constructor. The compiled list
  holds exactly the results of the patterns that compiled. A pattern that did not compile
  leaves the compiled list, and so the decision of \<open>settingsAllow\<close> for every address, as
  they are without it; a blacklist of such patterns only never disables a page.
\<close>

theorem invalid_pattern_ignored:
  "(patToRegExp newRegExp pat = None \<longleftrightarrow>
      trim pat = [] \<or> startsWith (trim pat) [35] \<or> newRegExp (regexSource (trim pat)) = None) \<and>
   set (compilePatternLists newRegExp (cfg\<lparr>blacklist := Some bl\<rparr>))
     = {re. \<exists>p\<in>set bl. patToRegExp newRegExp p = Some re} \<and>
   (patToRegExp newRegExp pat = None \<longrightarrow>
      compilePatternLists newRegExp (cfg\<lparr>blacklist := Some (xs @ pat # ys)\<rparr>)
        = compilePatternLists newRegExp (cfg\<lparr>blacklist := Some (xs @ ys)\<rparr>) \<and>
      settingsAllow test cfg
          (compilePatternLists newRegExp (cfg\<lparr>blacklist := Some (xs @ pat # ys)\<rparr>)) href
        = settingsAllow test cfg
            (compilePatternLists newRegExp (cfg\<lparr>blacklist := Some (xs @ ys)\<rparr>)) href) \<and>
   ((\<forall>p\<in>set bl. patToRegExp newRegExp p = None) \<longrightarrow>
      compilePatternLists newRegExp (cfg\<lparr>blacklist := Some bl\<rparr>) = [] \<and>
      settingsAllow test cfg (compilePatternLists newRegExp (cfg\<lparr>blacklist := Some bl\<rparr>)) href
        = enabled cfg)"
proof (intro conjI impI)
  show "patToRegExp newRegExp pat = None \<longleftrightarrow>
      trim pat = [] \<or> startsWith (trim pat) [35] \<or> newRegExp (regexSource (trim pat)) = None"
    by (auto simp: patToRegExp_def)
next
  show "set (compilePatternLists newRegExp (cfg\<lparr>blacklist := Some bl\<rparr>))
     = {re. \<exists>p\<in>set bl. patToRegExp newRegExp p = Some re}"
    by (simp add: compilePatternLists_def set_map_filter)
next
  assume n: "patToRegExp newRegExp pat = None"
  then show eq: "compilePatternLists newRegExp (cfg\<lparr>blacklist := Some (xs @ pat # ys)\<rparr>)
        = compilePatternLists newRegExp (cfg\<lparr>blacklist := Some (xs @ ys)\<rparr>)"
    by (simp add: compilePatternLists_def map_filter_drop_None)
  show "settingsAllow test cfg
          (compilePatternLists newRegExp (cfg\<lparr>blacklist := Some (xs @ pat # ys)\<rparr>)) href
        = settingsAllow test cfg
            (compilePatternLists newRegExp (cfg\<lparr>blacklist := Some (xs @ ys)\<rparr>)) href"
    by (simp only: eq)
next
  assume a: "\<forall>p\<in>set bl. patToRegExp newRegExp p = None"
  then show e: "compilePatternLists newRegExp (cfg\<lparr>blacklist := Some bl\<rparr>) = []"
    by (simp add: compilePatternLists_def map_filter_all_None)
  show "settingsAllow test cfg (compilePatternLists newRegExp (cfg\<lparr>blacklist := Some bl\<rparr>)) href
        = enabled cfg"
    by (simp add: e settingsAllow_def)
qed

text \<open>
  A toy host for the evaluation: the constructor refuses the source \<open>^bad$\<close>; a compiled
  expression is its source, and matches the address enclosed by \<open>^\<close> and \<open>$\<close>.
\<close>

definition toyRegExp :: "jsstring \<Rightarrow> jsstring option" where
  "toyRegExp src = (if src = js ''^bad$'' then None else Some src)"

definition toyTest :: "jsstring \<Rightarrow> jsstring \<Rightarrow> bool" where
  "toyTest re url \<longleftrightarrow> re = [94] @ url @ [36]"

theorem invalid_pattern_ignored_witness:
  "patToRegExp toyRegExp (js '' bad '') = None \<and>
   patToRegExp toyRegExp (js ''   '') = None \<and>
   patToRegExp toyRegExp (js ''good'') = Some (js ''^good$'') \<and>
   compilePatternLists toyRegExp
       (DEFAULT_SETTINGS\<lparr>blacklist := Some ([js ''good''] @ js '' bad '' # [])\<rparr>)
     = [js ''^good$''] \<and>
   settingsAllow toyTest DEFAULT_SETTINGS
       (compilePatternLists toyRegExp (DEFAULT_SETTINGS\<lparr>blacklist := Some [js '' bad '']\<rparr>))
       (js ''bad'')"
proof -
  have t: "trim (js '' bad '') = js ''bad''" "trim (js ''   '') = []" "trim (js ''good'') = js ''good''"
    by (simp_all add: trim_def js_def isWhiteSpace_def)
  have b: "patToRegExp toyRegExp (js '' bad '') = None"
    by (simp add: patToRegExp_def t, simp add: js_def startsWith_def regexSource_def escapeRe_def toyRegExp_def)
  have e: "patToRegExp toyRegExp (js ''   '') = None"
    by (simp add: patToRegExp_def t)
  have g: "patToRegExp toyRegExp (js ''good'') = Some (js ''^good$'')"
    by (simp add: patToRegExp_def t, simp add: js_def startsWith_def regexSource_def escapeRe_def toyRegExp_def)
  have c: "compilePatternLists toyRegExp (DEFAULT_SETTINGS\<lparr>blacklist := Some ([js ''good''] @ [])\<rparr>)
     = [js ''^good$'']"
    by (simp add: compilePatternLists_def List.map_filter_def g)
  have all: "\<forall>p\<in>set [js '' bad '']. patToRegExp toyRegExp p = None" by (simp add: b)
  have en: "enabled DEFAULT_SETTINGS" by (simp add: DEFAULT_SETTINGS_def)
  note T = invalid_pattern_ignored [where newRegExp = toyRegExp and pat = "js '' bad ''"
         and cfg = DEFAULT_SETTINGS and bl = "[js '' bad '']" and xs = "[js ''good'']"
         and ys = "[]" and test = toyTest and href = "js ''bad''"]
  from T all have s: "settingsAllow toyTest DEFAULT_SETTINGS
       (compilePatternLists toyRegExp (DEFAULT_SETTINGS\<lparr>blacklist := Some [js '' bad '']\<rparr>))
       (js ''bad'') = enabled DEFAULT_SETTINGS"
    by blast
  from T b have "compilePatternLists toyRegExp
       (DEFAULT_SETTINGS\<lparr>blacklist := Some ([js ''good''] @ js '' bad '' # [])\<rparr>)
     = compilePatternLists toyRegExp (DEFAULT_SETTINGS\<lparr>blacklist := Some ([js ''good''] @ [])\<rparr>)"
    by blast
  with c have "compilePatternLists toyRegExp
       (DEFAULT_SETTINGS\<lparr>blacklist := Some ([js ''good''] @ js '' bad '' # [])\<rparr>)
     = [js ''^good$'']"
    by (simp only:)
  with b e g s en show ?thesis by (simp only: simp_thms)
qed

end
